theory Spec2Isabelle
  imports Main
begin

section \<open>The Vault backend of easyKV: discovery and flattening\<close>

text \<open>
  The development embeds \<^verbatim>\<open>vault/client.go\<close>: the recursive tree walk
  (\<^verbatim>\<open>walkTree\<close>), the scalar heuristic (\<^verbatim>\<open>isKV\<close>), the flattening of
  structured secrets (\<^verbatim>\<open>flatten\<close>) and the orchestration (\<^verbatim>\<open>GetValues\<close>).
  Go strings are byte strings, modelled as \<open>string\<close>.
\<close>

subsection \<open>Values decoded from JSON\<close>

text \<open>
  A Go \<^verbatim>\<open>interface{}\<close> holding decoded JSON. The code distinguishes the nil interface,
  strings, \<^verbatim>\<open>[]interface{}\<close> and \<^verbatim>\<open>map[string]interface{}\<close>; every other dynamic
  type (numbers, booleans) is \<open>JOther\<close>. A Go map is an association list: its keys are
  distinct in a well-formed value, and the order of the list is the order in which
  \<^verbatim>\<open>range\<close> happens to enumerate it.
\<close>

datatype jvalue =
    JNull
  | JString string
  | JList "jvalue list"
  | JMap "(string \<times> jvalue) list"
  | JOther

type_synonym jobject = "(string \<times> jvalue) list"

datatype error = RemoteError string

text \<open>A \<^verbatim>\<open>*vaultapi.Secret\<close>: only its \<^verbatim>\<open>Data\<close> field is read; \<open>None\<close> is a nil map.\<close>

record secret =
  Data :: "jobject option"

text \<open>
  The authenticated client, as far as the code uses it: \<^verbatim>\<open>c.Logical().List\<close> and
  \<^verbatim>\<open>c.Logical().Read\<close>. Each returns an error (\<open>Inl\<close>) or a possibly nil response.
\<close>

record client =
  logical_List :: "string \<Rightarrow> error + secret option"
  logical_Read :: "string \<Rightarrow> error + secret option"

type_synonym vars = "string \<rightharpoonup> string"

subsection \<open>The standard library's path.Join\<close>

text \<open>
  \<^verbatim>\<open>path.Join\<close> and \<^verbatim>\<open>path.Clean\<close> belong to Go's standard library. \<^verbatim>\<open>Clean\<close>
  reads the path one slash-separated element at a time: an empty element and \<^verbatim>\<open>.\<close> are
  dropped; \<^verbatim>\<open>..\<close> removes the last element written when there is one that is not itself
  \<^verbatim>\<open>..\<close>, is dropped at the root of a rooted path, and is written otherwise; any other
  element is written. The elements written are separated by single slashes, after a leading
  slash when the path is rooted; an empty result is \<^verbatim>\<open>.\<close>. The model keeps the output
  buffer as the list of elements written so far.
\<close>

fun split_slash :: "string \<Rightarrow> string list" where
  "split_slash [] = [[]]"
| "split_slash (c # cs) =
     (if c = CHR ''/'' then [] # split_slash cs
      else (case split_slash cs of [] \<Rightarrow> [[c]] | e # es \<Rightarrow> (c # e) # es))"

text \<open>\<^verbatim>\<open>strings.Join(es, "/")\<close>.\<close>

fun join_slash :: "string list \<Rightarrow> string" where
  "join_slash [] = []"
| "join_slash [e] = e"
| "join_slash (e # es) = e @ CHR ''/'' # join_slash es"

definition clean_elem :: "bool \<Rightarrow> string list \<Rightarrow> string \<Rightarrow> string list" where
  "clean_elem rooted out e =
     (if e = [] then out
      else if e = ''.'' then out
      else if e = ''..'' then
        (if out \<noteq> [] \<and> last out \<noteq> ''..'' then butlast out
         else if \<not> rooted then out @ [''..'']
         else out)
      else out @ [e])"

definition path_Clean :: "string \<Rightarrow> string" where
  "path_Clean path =
     (let rooted = (path \<noteq> [] \<and> hd path = CHR ''/'');
          out = foldl (clean_elem rooted) [] (split_slash path)
      in if rooted then CHR ''/'' # join_slash out
         else if out = [] then ''.''
         else join_slash out)"

text \<open>
  \<^verbatim>\<open>Join\<close> ignores the empty elements in front, joins the rest with slashes and cleans
  the result; when every element is empty it returns the empty string.
\<close>

definition path_Join :: "string list \<Rightarrow> string" where
  "path_Join elem =
     (case dropWhile (\<lambda>e. e = []) elem of
        [] \<Rightarrow> []
      | es \<Rightarrow> path_Clean (join_slash es))"

subsection \<open>walkTree\<close>

text \<open>
  The state of a discovery run: the \<^verbatim>\<open>branches\<close> map (only ever set to true, so a set)
  and, as a trace of the remote effect, every call of \<^verbatim>\<open>List\<close> in order, each with the
  \<^verbatim>\<open>branches\<close> set as it was when the call was made.
\<close>

record wstate =
  branches :: "string set"
  calls :: "(string \<times> string set) list"

text \<open>Lines 233-236: strip a trailing slash as long as it is not the only character.\<close>

definition strip_slash :: "string \<Rightarrow> string" where
  "strip_slash key =
     (if int (length key) - 1 > 0 \<and> last key = CHR ''/'' then butlast key else key)"

text \<open>
  Lines 248-259: the child list of a response, or \<open>None\<close> where the walk returns nil
  (nil response, nil data, no \<^verbatim>\<open>keys\<close>, or \<^verbatim>\<open>keys\<close> not a \<^verbatim>\<open>[]interface{}\<close>).
\<close>

definition keyList_of :: "secret option \<Rightarrow> jvalue list option" where
  "keyList_of resp =
     (case resp of
        None \<Rightarrow> None
      | Some r \<Rightarrow>
         (case Data r of
            None \<Rightarrow> None
          | Some d \<Rightarrow>
             (case map_of d ''keys'' of
                None \<Rightarrow> None
              | Some JNull \<Rightarrow> None
              | Some (JList keyList) \<Rightarrow> Some keyList
              | Some _ \<Rightarrow> None)))"

text \<open>
  The recursion need not end (a remote tree may generate new paths forever), so the walk
  carries fuel that bounds the depth of the recursion; \<open>None\<close> is "did not return within
  the fuel". \<open>walkTree\<close> returns the Go error (\<open>None\<close> for nil) and the state; the loop over
  the children, \<open>walkKeys\<close>, discards the error of each recursive call as line 264 does.
  \<open>marked\<close> is the state after line 242; \<open>st1\<close> adds the call of \<^verbatim>\<open>List\<close> on line 244 to
  the trace, with the \<^verbatim>\<open>branches\<close> set of that moment.
\<close>

fun walkTree :: "nat \<Rightarrow> client \<Rightarrow> string \<Rightarrow> wstate \<Rightarrow> (error option \<times> wstate) option"
  and walkKeys :: "nat \<Rightarrow> client \<Rightarrow> string \<Rightarrow> jvalue list \<Rightarrow> wstate \<Rightarrow> wstate option"
where
  "walkTree 0 c key0 st = None"
| "walkTree (Suc n) c key0 st =
     (let key = strip_slash key0 in
      if key \<in> branches st then Some (None, st)
      else
        let marked = st\<lparr>branches := insert key (branches st)\<rparr>;
            st1 = marked\<lparr>calls := calls marked @ [(key, branches marked)]\<rparr>
        in (case logical_List c key of
              Inl err \<Rightarrow> Some (Some err, st1)
            | Inr resp \<Rightarrow>
               (case keyList_of resp of
                  None \<Rightarrow> Some (None, st1)
                | Some keyList \<Rightarrow>
                   (case walkKeys n c key keyList st1 of
                      None \<Rightarrow> None
                    | Some st2 \<Rightarrow> Some (None, st2)))))"
| "walkKeys n c key [] st = Some st"
| "walkKeys n c key (innerKey # rest) st =
     (case innerKey of
        JString s \<Rightarrow>
          (case walkTree n c (path_Join [key, ''/'', s]) st of
             None \<Rightarrow> None
           | Some (_, st') \<Rightarrow> walkKeys n c key rest st')
      | _ \<Rightarrow> walkKeys n c key rest st)"

text \<open>Lines 200-202: the walk over every prefix; the error of each walk is discarded.\<close>

fun walkAll :: "nat \<Rightarrow> client \<Rightarrow> string list \<Rightarrow> wstate \<Rightarrow> wstate option" where
  "walkAll n c [] st = Some st"
| "walkAll n c (key # keys) st =
     (case walkTree n c key st of
        None \<Rightarrow> None
      | Some (_, st') \<Rightarrow> walkAll n c keys st')"

subsection \<open>isKV and flatten\<close>

definition isKV :: "jobject \<Rightarrow> string option" where
  "isKV data =
     (if length data = 1 then
        (case map_of data ''value'' of
           Some (JString text) \<Rightarrow> Some text
         | _ \<Rightarrow> None)
      else None)"

fun flatten :: "string \<Rightarrow> jvalue \<Rightarrow> vars \<Rightarrow> vars"
  and flatten_fields :: "string \<Rightarrow> jobject \<Rightarrow> vars \<Rightarrow> vars"
where
  "flatten key (JString s) vars = vars(key \<mapsto> s)"
| "flatten key (JMap inner) vars = flatten_fields key inner vars"
| "flatten key JNull vars = vars"
| "flatten key (JList xs) vars = vars"
| "flatten key JOther vars = vars"
| "flatten_fields key [] vars = vars"
| "flatten_fields key ((innerKey, innerValue) # rest) vars =
     flatten_fields key rest (flatten (path_Join [key, ''/'', innerKey]) innerValue vars)"

subsection \<open>GetValues\<close>

text \<open>
  Lines 215-226, the body of the read loop once the data is there. \<open>marshal\<close> stands for
  \<^verbatim>\<open>json.Marshal\<close> of the standard library, whose output is stored and deleted again.
\<close>

definition store_data :: "(jobject \<Rightarrow> string) \<Rightarrow> string \<Rightarrow> jobject \<Rightarrow> vars \<Rightarrow> vars" where
  "store_data marshal key data vars =
     (case isKV data of
        Some val \<Rightarrow> vars(key \<mapsto> val)
      | None \<Rightarrow> (flatten key (JMap data) (vars(key \<mapsto> marshal data)))(key := None))"

text \<open>
  Lines 205-228: the loop over the discovered paths, in the order \<^verbatim>\<open>range\<close> enumerates
  them. The first component of the result is the trace of the \<^verbatim>\<open>Read\<close> calls made; on an
  error the Go code returns a nil map with the error, which is \<open>Inl\<close>.
\<close>

fun readLoop ::
  "client \<Rightarrow> (jobject \<Rightarrow> string) \<Rightarrow> string list \<Rightarrow> string list \<times> vars \<Rightarrow> string list \<times> (error + vars)"
where
  "readLoop c marshal [] (reads, vars) = (reads, Inr vars)"
| "readLoop c marshal (key # rest) (reads, vars) =
     (case logical_Read c key of
        Inl err \<Rightarrow> (reads @ [key], Inl err)
      | Inr resp \<Rightarrow>
         (case resp of
            None \<Rightarrow> readLoop c marshal rest (reads @ [key], vars)
          | Some r \<Rightarrow>
             (case Data r of
                None \<Rightarrow> readLoop c marshal rest (reads @ [key], vars)
              | Some data \<Rightarrow>
                 readLoop c marshal rest (reads @ [key], store_data marshal key data vars))))"

text \<open>
  \<open>range_order\<close> is the order in which the Go runtime enumerates the \<^verbatim>\<open>branches\<close> map:
  some list of its keys, each once.
\<close>

definition GetValues ::
  "nat \<Rightarrow> client \<Rightarrow> (jobject \<Rightarrow> string) \<Rightarrow> (string set \<Rightarrow> string list) \<Rightarrow> string list
     \<Rightarrow> (string list \<times> (error + vars)) option"
where
  "GetValues fuel c marshal range_order keys =
     (case walkAll fuel c keys \<lparr>branches = {}, calls = []\<rparr> of
        None \<Rightarrow> None
      | Some st \<Rightarrow> Some (readLoop c marshal (range_order (branches st)) ([], Map.empty)))"

subsection \<open>The entries a structured value stands for\<close>

text \<open>
  The string leaves of a value, each with the field names on the way to it, in the order
  of enumeration; \<open>join_names\<close> joins such names onto a path, one \<^verbatim>\<open>path.Join\<close> per name.
  \<open>leaf_entries p v\<close> is then one entry per string leaf of \<open>v\<close>, keyed by the names joined
  onto \<open>p\<close>.
\<close>

fun string_leaves :: "jvalue \<Rightarrow> (string list \<times> string) list"
  and field_leaves :: "jobject \<Rightarrow> (string list \<times> string) list"
where
  "string_leaves (JString s) = [([], s)]"
| "string_leaves (JMap inner) = field_leaves inner"
| "string_leaves JNull = []"
| "string_leaves (JList xs) = []"
| "string_leaves JOther = []"
| "field_leaves [] = []"
| "field_leaves ((name, v) # rest) =
     map (\<lambda>(names, s). (name # names, s)) (string_leaves v) @ field_leaves rest"

definition join_names :: "string \<Rightarrow> string list \<Rightarrow> string" where
  "join_names p names = foldl (\<lambda>key name. path_Join [key, ''/'', name]) p names"

definition leaf_entries :: "string \<Rightarrow> jvalue \<Rightarrow> (string \<times> string) list" where
  "leaf_entries p v = map (\<lambda>(names, s). (join_names p names, s)) (string_leaves v)"

text \<open>The data without its fields that have the empty name and a string as content.\<close>

definition is_JString :: "jvalue \<Rightarrow> bool" where
  "is_JString v = (case v of JString s \<Rightarrow> True | _ \<Rightarrow> False)"

definition without_empty_named :: "jobject \<Rightarrow> jobject" where
  "without_empty_named data = filter (\<lambda>(name, v). \<not> (name = [] \<and> is_JString v)) data"

subsection \<open>Notions for the discovery run\<close>

text \<open>
  The trace of a run is in order when no path was listed twice, the paths listed are the
  paths visited, and each call of \<^verbatim>\<open>List\<close> found its path in the visited set of that moment.
\<close>

definition trace_ok :: "wstate \<Rightarrow> bool" where
  "trace_ok st \<longleftrightarrow>
     distinct (map fst (calls st))
     \<and> fst ` set (calls st) = branches st
     \<and> (\<forall>(p, seen) \<in> set (calls st). p \<in> seen \<and> seen \<subseteq> branches st)"

text \<open>
  The normalized paths a walk at the normalized path \<open>key\<close> recurses into, and what it means
  for a set of paths to contain every path reachable from its members.
\<close>

definition children_of :: "client \<Rightarrow> string \<Rightarrow> string list" where
  "children_of c key =
     (case logical_List c key of
        Inl err \<Rightarrow> []
      | Inr resp \<Rightarrow>
         (case keyList_of resp of
            None \<Rightarrow> []
          | Some keyList \<Rightarrow> [strip_slash (path_Join [key, ''/'', s]). JString s \<leftarrow> keyList]))"

definition closed_under :: "client \<Rightarrow> string set \<Rightarrow> bool" where
  "closed_under c R \<longleftrightarrow> (\<forall>p\<in>R. set (children_of c p) \<subseteq> R)"

subsection \<open>Notions for the path joins\<close>

text \<open>
  What joining with one separator and collapsing the redundant separators gives: the
  non-empty elements of the string, separated by single slashes, after a leading slash when
  the string starts with one.
\<close>

definition collapse_slashes :: "string \<Rightarrow> string" where
  "collapse_slashes s =
     (if s \<noteq> [] \<and> hd s = CHR ''/'' then ''/'' else [])
       @ join_slash (filter (\<lambda>e. e \<noteq> []) (split_slash s))"

definition no_dot_elems :: "string \<Rightarrow> bool" where
  "no_dot_elems s = list_all (\<lambda>e. e \<noteq> ''.'' \<and> e \<noteq> ''..'') (split_slash s)"

subsection \<open>Notions for the read phase\<close>

text \<open>
  The data the read loop finds at a path (\<open>None\<close> where it skips the path), the effect of
  one iteration without error on the mapping, and the output keys an iteration assigns or
  deletes: the path itself, and for structured data the keys of its leaf entries.
\<close>

definition data_at :: "client \<Rightarrow> string \<Rightarrow> jobject option" where
  "data_at c key =
     (case logical_Read c key of
        Inl err \<Rightarrow> None
      | Inr None \<Rightarrow> None
      | Inr (Some r) \<Rightarrow> Data r)"

definition contribute :: "client \<Rightarrow> (jobject \<Rightarrow> string) \<Rightarrow> vars \<Rightarrow> string \<Rightarrow> vars" where
  "contribute c marshal vars key =
     (case data_at c key of
        None \<Rightarrow> vars
      | Some data \<Rightarrow> store_data marshal key data vars)"

definition touched :: "client \<Rightarrow> string \<Rightarrow> string set" where
  "touched c key =
     (case data_at c key of
        None \<Rightarrow> {}
      | Some data \<Rightarrow>
         (case isKV data of
            Some val \<Rightarrow> {key}
          | None \<Rightarrow> insert key (fst ` set (leaf_entries key (JMap data)))))"

definition separate_keys :: "client \<Rightarrow> string set \<Rightarrow> bool" where
  "separate_keys c B \<longleftrightarrow> (\<forall>p\<in>B. \<forall>q\<in>B. p \<noteq> q \<longrightarrow> touched c p \<inter> touched c q = {})"

subsection \<open>Example remote stores\<close>

text \<open>An encoder and an enumeration order to run the examples with.\<close>

definition const_marshal :: "jobject \<Rightarrow> string" where
  "const_marshal data = ''{}''"

definition order_of :: "string list \<Rightarrow> string set \<Rightarrow> string list" where
  "order_of candidates S = filter (\<lambda>k. k \<in> S) candidates"

text \<open>A store with a scalar secret at \<^verbatim>\<open>p\<close> and a two-field secret at \<^verbatim>\<open>q\<close>.\<close>

definition scalar_client :: client where
  "scalar_client =
     \<lparr>logical_List = (\<lambda>k. Inr None),
      logical_Read = (\<lambda>k.
        if k = ''p'' then Inr (Some \<lparr>Data = Some [(''value'', JString ''hello'')]\<rparr>)
        else if k = ''q'' then
          Inr (Some \<lparr>Data = Some [(''value'', JString ''hello''), (''other'', JString ''x'')]\<rparr>)
        else Inr None)\<rparr>"

text \<open>The structured secret of the flattening example.\<close>

definition app_data :: jobject where
  "app_data = [(''db'', JMap [(''user'', JString ''a''), (''pass'', JString ''b'')])]"

text \<open>Five leaves; the read of the third fails.\<close>

definition five_client :: client where
  "five_client =
     \<lparr>logical_List = (\<lambda>k. Inr None),
      logical_Read = (\<lambda>k.
        if k = ''c'' then Inl (RemoteError ''permission denied'')
        else Inr (Some \<lparr>Data = Some [(''value'', JString k)]\<rparr>))\<rparr>"

text \<open>
  A store whose listings hold a directory entry with a trailing slash, an entry that is
  not a string, a link back to the parent and a cross-link to a sibling.
\<close>

definition tree_client :: client where
  "tree_client =
     \<lparr>logical_List = (\<lambda>k.
        if k = ''secret/foo'' then
          Inr (Some \<lparr>Data = Some [(''keys'', JList [JString ''bar'', JOther, JString ''baz/''])]\<rparr>)
        else if k = ''secret/foo/baz'' then
          Inr (Some \<lparr>Data = Some [(''keys'', JList [JString ''..'', JString ''../bar'', JString ''qux''])]\<rparr>)
        else Inr None),
      logical_Read = (\<lambda>k. Inr None)\<rparr>"

text \<open>A store where listing the child \<^verbatim>\<open>a/b\<close> of \<^verbatim>\<open>a\<close> fails.\<close>

definition failing_child_client :: client where
  "failing_child_client =
     \<lparr>logical_List = (\<lambda>k.
        if k = ''a'' then Inr (Some \<lparr>Data = Some [(''keys'', JList [JString ''b''])]\<rparr>)
        else if k = ''a/b'' then Inl (RemoteError ''permission denied'')
        else Inr None),
      logical_Read = (\<lambda>k. Inr None)\<rparr>"

text \<open>A store whose listing at \<^verbatim>\<open>secret/app\<close> holds the child name \<^verbatim>\<open>..\<close>.\<close>

definition dotdot_client :: client where
  "dotdot_client =
     \<lparr>logical_List = (\<lambda>k.
        if k = ''secret/app'' then Inr (Some \<lparr>Data = Some [(''keys'', JList [JString ''..''])]\<rparr>)
        else Inr None),
      logical_Read = (\<lambda>k. Inr None)\<rparr>"

text \<open>
  A store with a secret at a prefix that is not in cleaned form; the secret has a field
  with the empty name.
\<close>

definition unclean_client :: client where
  "unclean_client =
     \<lparr>logical_List = (\<lambda>k. Inr None),
      logical_Read = (\<lambda>k.
        if k = ''secret//app'' then
          Inr (Some \<lparr>Data = Some [([], JString ''x''), (''k'', JString ''y'')]\<rparr>)
        else Inr None)\<rparr>"

text \<open>
  A store where the structured secret at \<^verbatim>\<open>a\<close> has a field \<^verbatim>\<open>b\<close> and the child \<^verbatim>\<open>a/b\<close>
  holds a scalar secret.
\<close>

definition collide_client :: client where
  "collide_client =
     \<lparr>logical_List = (\<lambda>k.
        if k = ''a'' then Inr (Some \<lparr>Data = Some [(''keys'', JList [JString ''b''])]\<rparr>)
        else Inr None),
      logical_Read = (\<lambda>k.
        if k = ''a'' then Inr (Some \<lparr>Data = Some [(''b'', JString ''x''), (''c'', JString ''z'')]\<rparr>)
        else if k = ''a/b'' then Inr (Some \<lparr>Data = Some [(''value'', JString ''y'')]\<rparr>)
        else Inr None)\<rparr>"

subsection \<open>Two runs against one store\<close>

text \<open>
  A Go map has no order of its own: two runs may enumerate the fields of the same map in
  different orders. \<open>same_value v w\<close> says that \<open>v\<close> and \<open>w\<close> are one value up to the order
  of the fields of its maps, at every depth. Two clients are the same store when their
  listings agree and every read gives the same error or the same data in this sense. (The
  walk looks fields of a listing up by name and never ranges over them.)
\<close>

inductive same_value :: "jvalue \<Rightarrow> jvalue \<Rightarrow> bool"
  and same_fields :: "jobject \<Rightarrow> jobject \<Rightarrow> bool"
where
  same_JNull: "same_value JNull JNull"
| same_JString: "same_value (JString s) (JString s)"
| same_JList: "list_all2 same_value xs ys \<Longrightarrow> same_value (JList xs) (JList ys)"
| same_JOther: "same_value JOther JOther"
| same_JMap: "same_fields xs ys \<Longrightarrow> same_value (JMap xs) (JMap ys)"
| same_no_fields: "same_fields [] []"
| same_field: "same_value v w \<Longrightarrow> same_fields xs (ys @ zs)
                 \<Longrightarrow> same_fields ((name, v) # xs) (ys @ (name, w) # zs)"

definition same_response :: "error + secret option \<Rightarrow> error + secret option \<Rightarrow> bool" where
  "same_response r1 r2 =
     (case (r1, r2) of
        (Inl e1, Inl e2) \<Rightarrow> e1 = e2
      | (Inr None, Inr None) \<Rightarrow> True
      | (Inr (Some a), Inr (Some b)) \<Rightarrow>
          (case (Data a, Data b) of
             (None, None) \<Rightarrow> True
           | (Some d1, Some d2) \<Rightarrow> same_fields d1 d2
           | _ \<Rightarrow> False)
      | _ \<Rightarrow> False)"

definition same_store :: "client \<Rightarrow> client \<Rightarrow> bool" where
  "same_store c1 c2 \<longleftrightarrow>
     logical_List c1 = logical_List c2
     \<and> (\<forall>p. same_response (logical_Read c1 p) (logical_Read c2 p))"

text \<open>
  No data at a path of \<open>B\<close> has two string leaves whose names join to one key with different
  strings.
\<close>

definition unambiguous :: "client \<Rightarrow> string set \<Rightarrow> bool" where
  "unambiguous c B \<longleftrightarrow>
     (\<forall>p\<in>B. \<forall>data. data_at c p = Some data \<longrightarrow> single_valued (set (leaf_entries p (JMap data))))"
text \<open>
  The store of the scalar example with the fields of the secret at \<^verbatim>\<open>q\<close> in the other
  order, and a store with one secret, at \<^verbatim>\<open>p\<close>.
\<close>

definition reordered_client :: client where
  "reordered_client =
     \<lparr>logical_List = (\<lambda>k. Inr None),
      logical_Read = (\<lambda>k.
        if k = ''p'' then Inr (Some \<lparr>Data = Some [(''value'', JString ''hello'')]\<rparr>)
        else if k = ''q'' then
          Inr (Some \<lparr>Data = Some [(''other'', JString ''x''), (''value'', JString ''hello'')]\<rparr>)
        else Inr None)\<rparr>"

definition one_secret_client :: "jobject \<Rightarrow> client" where
  "one_secret_client data =
     \<lparr>logical_List = (\<lambda>k. Inr None),
      logical_Read = (\<lambda>k. if k = ''p'' then Inr (Some \<lparr>Data = Some data\<rparr>) else Inr None)\<rparr>"

text \<open>A store with the structured secret of the flattening example at \<^verbatim>\<open>secret/app\<close>.\<close>

definition app_client :: client where
  "app_client =
     \<lparr>logical_List = (\<lambda>k. Inr None),
      logical_Read = (\<lambda>k. if k = ''secret/app'' then Inr (Some \<lparr>Data = Some app_data\<rparr>) else Inr None)\<rparr>"

section \<open>Properties\<close>

subsection \<open>The scalar heuristic\<close>

lemma isKV_Some_iff: "isKV data = Some s \<longleftrightarrow> data = [(''value'', JString s)]"
proof
  assume h: "isKV data = Some s"
  then have len: "length data = 1"
    by (simp add: isKV_def split: if_splits)
  then obtain k v where d: "data = [(k, v)]"
    by (cases data) (auto simp: length_Suc_conv)
  with h show "data = [(''value'', JString s)]"
    by (auto simp: isKV_def split: if_splits option.splits jvalue.splits)
next
  assume "data = [(''value'', JString s)]"
  then show "isKV data = Some s" by (simp add: isKV_def)
qed

lemma isKV_None_iff: "isKV data = None \<longleftrightarrow> (\<forall>s. data \<noteq> [(''value'', JString s)])"
  using isKV_Some_iff [of data] by (cases "isKV data") auto

subsection \<open>Flattening\<close>

lemma join_names_Cons: "join_names p (n # ns) = join_names (path_Join [p, ''/'', n]) ns"
  by (simp add: join_names_def)

lemma flatten_entries:
  "flatten key v vars = vars ++ map_of (rev (map (\<lambda>(names, s). (join_names key names, s)) (string_leaves v)))"
  "flatten_fields key inner vars = vars ++ map_of (rev (map (\<lambda>(names, s). (join_names key names, s)) (field_leaves inner)))"
proof (induction key v vars and key inner vars rule: flatten_flatten_fields.induct)
  case (1 key s vars)
  show ?case by (simp add: join_names_def map_add_def fun_eq_iff)
next
  case (7 key innerKey innerValue rest vars)
  let ?f = "\<lambda>k. (\<lambda>(names, s). (join_names k names, s))"
  have m: "map (?f key) (map (\<lambda>(names, s). (innerKey # names, s)) (string_leaves innerValue))
           = map (?f (path_Join [key, ''/'', innerKey])) (string_leaves innerValue)"
    by (simp add: join_names_Cons case_prod_unfold)
  have "flatten_fields key ((innerKey, innerValue) # rest) vars
        = (vars ++ map_of (rev (map (?f (path_Join [key, ''/'', innerKey])) (string_leaves innerValue))))
            ++ map_of (rev (map (?f key) (field_leaves rest)))"
    using 7 by simp
  also have "\<dots> = vars ++ map_of (rev (map (?f key) (field_leaves ((innerKey, innerValue) # rest))))"
    by (simp add: m rev_map [symmetric] del: map_map)
  finally show ?case .
qed simp_all

lemma flatten_leaf_entries: "flatten key v vars = vars ++ map_of (rev (leaf_entries key v))"
  by (simp add: flatten_entries leaf_entries_def)

subsection \<open>Errors of the read phase\<close>

lemma readLoop_stops_at_error:
  assumes "\<forall>k\<in>set xs. \<forall>e. logical_Read c k \<noteq> Inl e" and "logical_Read c p = Inl err"
  shows "readLoop c marshal (xs @ p # ys) (reads, vars) = (reads @ xs @ [p], Inl err)"
  using assms
proof (induction xs arbitrary: reads vars)
  case Nil
  then show ?case by simp
next
  case (Cons x xs)
  then show ?case
    by (cases "logical_Read c x") (auto split: option.splits)
qed

text \<open>
  C3. When the enumeration of the discovered paths reaches a path \<open>p\<close> whose read fails,
  every earlier read having succeeded, \<open>GetValues\<close> returns that error and no mapping at
  all (not the entries accumulated so far), and the reads made are exactly those up to \<open>p\<close>:
  the paths after \<open>p\<close> are not read.
\<close>

theorem first_error_aborts:
  assumes "walkAll fuel c keys \<lparr>branches = {}, calls = []\<rparr> = Some st"
    and "range_order (branches st) = xs @ p # ys"
    and "\<forall>k\<in>set xs. \<forall>e. logical_Read c k \<noteq> Inl e"
    and "logical_Read c p = Inl err"
  shows "GetValues fuel c marshal range_order keys = Some (xs @ [p], Inl err)"
  using assms by (simp add: GetValues_def readLoop_stops_at_error)

lemma strip_plain: "strip_slash [x] = [x]"
  by (simp add: strip_slash_def)

theorem first_error_aborts_witness:
  "GetValues 1 five_client const_marshal (order_of [''a'', ''b'', ''c'', ''d'', ''e''])
     [''a'', ''b'', ''c'', ''d'', ''e'']
   = Some ([''a'', ''b'', ''c''], Inl (RemoteError ''permission denied''))"
proof -
  let ?st = "\<lparr>branches = {''a'', ''b'', ''c'', ''d'', ''e''},
              calls = [(''a'', {''a''}), (''b'', {''a'', ''b''}), (''c'', {''a'', ''b'', ''c''}),
                       (''d'', {''a'', ''b'', ''c'', ''d''}), (''e'', {''a'', ''b'', ''c'', ''d'', ''e''})]\<rparr>"
  have w: "walkAll 1 five_client [''a'', ''b'', ''c'', ''d'', ''e''] \<lparr>branches = {}, calls = []\<rparr> = Some ?st"
    by code_simp
  have o: "order_of [''a'', ''b'', ''c'', ''d'', ''e''] (branches ?st) = [''a'', ''b''] @ ''c'' # [''d'', ''e'']"
    by (simp add: order_of_def)
  have ok: "\<forall>k\<in>set [''a'', ''b'']. \<forall>e. logical_Read five_client k \<noteq> Inl e"
    by (simp add: five_client_def)
  have bad: "logical_Read five_client ''c'' = Inl (RemoteError ''permission denied'')"
    by (simp add: five_client_def)
  show ?thesis
    using first_error_aborts [where range_order = "order_of [''a'', ''b'', ''c'', ''d'', ''e'']"
        and xs = "[''a'', ''b'']" and p = "''c''" and ys = "[''d'', ''e'']" and marshal = const_marshal,
        OF w o ok bad]
    by simp
qed

subsection \<open>Normalization of the prefix\<close>

lemma walkTree_strip_cong:
  "strip_slash k1 = strip_slash k2 \<Longrightarrow> walkTree fuel c k1 st = walkTree fuel c k2 st"
  by (cases fuel) simp_all

lemma strip_slash_snoc: "key \<noteq> [] \<Longrightarrow> strip_slash (key @ ''/'') = key"
  by (cases key) (simp_all add: strip_slash_def)

text \<open>
  C7. Normalization removes one trailing slash from a key of more than one character, and
  only one; the key \<^verbatim>\<open>/\<close> stays as it is. So a walk from a key with a trailing slash added
  does what the walk from the key itself does, and discovery from both visits the same
  paths.
\<close>

theorem trailing_slash_normalized:
  "strip_slash ''/'' = ''/''
   \<and> (key \<noteq> [] \<longrightarrow> strip_slash (key @ ''/'') = key \<and> strip_slash (key @ ''//'') = key @ ''/'')
   \<and> (key \<noteq> [] \<and> strip_slash key = key \<longrightarrow>
         walkTree fuel c (key @ ''/'') st = walkTree fuel c key st
       \<and> walkAll fuel c ((key @ ''/'') # keys) st = walkAll fuel c (key # keys) st
       \<and> GetValues fuel c marshal range_order ((key @ ''/'') # keys)
           = GetValues fuel c marshal range_order (key # keys))"
proof (intro conjI impI)
  show "strip_slash ''/'' = ''/''" by (simp add: strip_slash_def)
next
  assume "key \<noteq> []"
  then show "strip_slash (key @ ''/'') = key" by (rule strip_slash_snoc)
next
  assume "key \<noteq> []"
  have "strip_slash ((key @ ''/'') @ ''/'') = key @ ''/''"
    by (rule strip_slash_snoc) simp
  then show "strip_slash (key @ ''//'') = key @ ''/''" by simp
next
  assume h: "key \<noteq> [] \<and> strip_slash key = key"
  then have e: "strip_slash (key @ ''/'') = strip_slash key"
    by (simp add: strip_slash_snoc)
  show w: "walkTree fuel c (key @ ''/'') st = walkTree fuel c key st"
    by (rule walkTree_strip_cong [OF e])
  then show "walkAll fuel c ((key @ ''/'') # keys) st = walkAll fuel c (key # keys) st"
    by simp
  from walkTree_strip_cong [OF e]
  show "GetValues fuel c marshal range_order ((key @ ''/'') # keys)
           = GetValues fuel c marshal range_order (key # keys)"
    by (simp add: GetValues_def)
qed

theorem trailing_slash_normalized_witness:
  "strip_slash ''secret/foo'' = ''secret/foo''
   \<and> strip_slash ''secret/foo/'' = ''secret/foo''
   \<and> walkAll 3 tree_client [''secret/foo/''] \<lparr>branches = {}, calls = []\<rparr>
       = walkAll 3 tree_client [''secret/foo''] \<lparr>branches = {}, calls = []\<rparr>
   \<and> map_option branches (walkAll 3 tree_client [''secret/foo''] \<lparr>branches = {}, calls = []\<rparr>)
       = Some {''secret/foo'', ''secret/foo/bar'', ''secret/foo/baz'', ''secret/foo/baz/qux''}"
proof -
  have s: "strip_slash ''secret/foo'' = ''secret/foo''" by (simp add: strip_slash_def)
  have b: "map_option branches (walkAll 3 tree_client [''secret/foo''] \<lparr>branches = {}, calls = []\<rparr>)
       = Some {''secret/foo'', ''secret/foo/bar'', ''secret/foo/baz'', ''secret/foo/baz/qux''}"
    by code_simp
  show ?thesis
    using s b trailing_slash_normalized [of "''secret/foo''" 3 tree_client
        "\<lparr>branches = {}, calls = []\<rparr>" "[]" const_marshal "order_of []"]
    by simp
qed

subsection \<open>Errors of the discovery phase\<close>

text \<open>
  C4, as the code has it. A walk whose own \<^verbatim>\<open>List\<close> call fails returns that error to
  its caller. The error a walk returns is always the error of the one \<^verbatim>\<open>List\<close> call it
  makes itself, on its own normalized key when that key was not visited before, and nil in
  every other case: a failure of \<^verbatim>\<open>List\<close> at a path reached while recursing into the
  children is not returned by the walk that recursed. \<open>GetValues\<close> discards the result of
  every walk and goes on to the read phase over all the paths visited.
\<close>

theorem list_error_only_from_own_call:
  "(strip_slash key \<notin> branches st \<and> logical_List c (strip_slash key) = Inl err \<longrightarrow>
      (\<exists>st1. walkTree (Suc n) c key st = Some (Some err, st1)
           \<and> branches st1 = insert (strip_slash key) (branches st)))
   \<and> (walkTree fuel c key st = Some (r, st') \<longrightarrow>
      r = (if strip_slash key \<in> branches st then None
           else (case logical_List c (strip_slash key) of Inl err \<Rightarrow> Some err | Inr resp \<Rightarrow> None)))
   \<and> (walkAll fuel c keys \<lparr>branches = {}, calls = []\<rparr> = Some st2 \<longrightarrow>
        GetValues fuel c marshal range_order keys
          = Some (readLoop c marshal (range_order (branches st2)) ([], Map.empty)))"
proof (intro conjI impI)
  assume "strip_slash key \<notin> branches st \<and> logical_List c (strip_slash key) = Inl err"
  then show "\<exists>st1. walkTree (Suc n) c key st = Some (Some err, st1)
           \<and> branches st1 = insert (strip_slash key) (branches st)"
    by (simp add: Let_def)
next
  assume "walkTree fuel c key st = Some (r, st')"
  then show "r = (if strip_slash key \<in> branches st then None
           else (case logical_List c (strip_slash key) of Inl err \<Rightarrow> Some err | Inr resp \<Rightarrow> None))"
    by (cases fuel) (auto simp: Let_def split: if_splits sum.splits option.splits)
next
  assume "walkAll fuel c keys \<lparr>branches = {}, calls = []\<rparr> = Some st2"
  then show "GetValues fuel c marshal range_order keys
          = Some (readLoop c marshal (range_order (branches st2)) ([], Map.empty))"
    by (simp add: GetValues_def)
qed

theorem list_error_only_from_own_call_witness:
  "walkTree 2 failing_child_client ''a/b'' \<lparr>branches = {}, calls = []\<rparr>
     = Some (Some (RemoteError ''permission denied''),
             \<lparr>branches = {''a/b''}, calls = [(''a/b'', {''a/b''})]\<rparr>)
   \<and> GetValues 2 failing_child_client const_marshal (order_of [''a'', ''a/b'']) [''a/b'', ''a'']
     = Some ([''a'', ''a/b''], Inr Map.empty)"
proof -
  have w: "walkTree 2 failing_child_client ''a/b'' \<lparr>branches = {}, calls = []\<rparr>
     = Some (Some (RemoteError ''permission denied''),
             \<lparr>branches = {''a/b''}, calls = [(''a/b'', {''a/b''})]\<rparr>)"
    by code_simp
  have a: "walkAll 2 failing_child_client [''a/b'', ''a''] \<lparr>branches = {}, calls = []\<rparr>
     = Some \<lparr>branches = {''a'', ''a/b''}, calls = [(''a/b'', {''a/b''}), (''a'', {''a'', ''a/b''})]\<rparr>"
    by code_simp
  have r: "logical_Read failing_child_client = (\<lambda>k. Inr None)"
    by (simp add: failing_child_client_def)
  have l: "readLoop failing_child_client const_marshal [''a'', ''a/b''] ([], Map.empty)
            = ([''a'', ''a/b''], Inr Map.empty)"
    by (simp add: r)
  show ?thesis
    using w a l
      list_error_only_from_own_call [of "''a/b''" "\<lparr>branches = {}, calls = []\<rparr>"
        failing_child_client "RemoteError ''permission denied''" 1 2
        "Some (RemoteError ''permission denied'')"
        "\<lparr>branches = {''a/b''}, calls = [(''a/b'', {''a/b''})]\<rparr>"
        "[''a/b'', ''a'']"
        "\<lparr>branches = {''a'', ''a/b''}, calls = [(''a/b'', {''a/b''}), (''a'', {''a'', ''a/b''})]\<rparr>"
        const_marshal "order_of [''a'', ''a/b'']"]
    by (simp add: order_of_def)
qed

text \<open>
  The walk from \<^verbatim>\<open>a\<close> lists \<^verbatim>\<open>a\<close> and its child \<^verbatim>\<open>a/b\<close>; the call at the child fails,
  and the walk from \<^verbatim>\<open>a\<close> returns nil.
\<close>

theorem child_list_error_swallowed:
  "logical_List failing_child_client ''a/b'' = Inl (RemoteError ''permission denied'')
   \<and> walkTree 2 failing_child_client ''a'' \<lparr>branches = {}, calls = []\<rparr>
       = Some (None, \<lparr>branches = {''a'', ''a/b''},
                      calls = [(''a'', {''a''}), (''a/b'', {''a'', ''a/b''})]\<rparr>)"
proof -
  have "logical_List failing_child_client ''a/b'' = Inl (RemoteError ''permission denied'')"
    by (simp add: failing_child_client_def)
  moreover have "walkTree 2 failing_child_client ''a'' \<lparr>branches = {}, calls = []\<rparr>
       = Some (None, \<lparr>branches = {''a'', ''a/b''},
                      calls = [(''a'', {''a''}), (''a/b'', {''a'', ''a/b''})]\<rparr>)"
    by code_simp
  ultimately show ?thesis by simp
qed

subsection \<open>The visited set\<close>

lemma walk_branches_mono:
  "walkTree n c key st = Some (r, st') \<Longrightarrow> branches st \<subseteq> branches st'"
  "walkKeys n c key ks st = Some st' \<Longrightarrow> branches st \<subseteq> branches st'"
proof (induction n c key st and n c key ks st arbitrary: r st' and st'
       rule: walkTree_walkKeys.induct)
  case (1 c key0 st)
  then show ?case by simp
next
  case (2 n c key0 st)
  then show ?case
    by (fastforce simp: Let_def split: if_splits sum.splits option.splits)
next
  case (3 n c key st)
  then show ?case by simp
next
  case (4 n c key innerKey rest st)
  then show ?case
    by (cases innerKey) (fastforce split: option.splits prod.splits)+
qed

lemma walk_trace_ok:
  "walkTree n c key st = Some (r, st') \<Longrightarrow> trace_ok st \<Longrightarrow> trace_ok st'"
  "walkKeys n c key ks st = Some st' \<Longrightarrow> trace_ok st \<Longrightarrow> trace_ok st'"
proof (induction n c key st and n c key ks st arbitrary: r st' and st'
       rule: walkTree_walkKeys.induct)
  case (1 c key0 st)
  then show ?case by simp
next
  case (2 n c key0 st)
  let ?key = "strip_slash key0"
  let ?st1 = "st\<lparr>branches := insert ?key (branches st),
                 calls := calls st @ [(?key, insert ?key (branches st))]\<rparr>"
  show ?case
  proof (cases "?key \<in> branches st")
    case True
    with 2 show ?thesis by (simp add: Let_def)
  next
    case False
    with \<open>trace_ok st\<close> have ok1: "trace_ok ?st1"
      by (auto simp: trace_ok_def)
    show ?thesis
    proof (cases "logical_List c ?key")
      case (Inl err)
      with 2 False ok1 show ?thesis by (auto simp: Let_def)
    next
      case (Inr resp)
      show ?thesis
      proof (cases "keyList_of resp")
        case None
        with 2 False ok1 Inr show ?thesis by (auto simp: Let_def)
      next
        case (Some keyList)
        with 2(2) False Inr have "walkKeys n c ?key keyList ?st1 = Some st'"
          by (auto simp: Let_def split: option.splits)
        with 2(1) [OF refl False refl refl Inr Some] ok1 show ?thesis
          by simp
      qed
    qed
  qed
next
  case (3 n c key st)
  then show ?case by simp
next
  case (4 n c key innerKey rest st)
  then show ?case
    by (cases innerKey) (fastforce split: option.splits prod.splits)+
qed

lemma walkAll_trace_ok:
  "walkAll n c keys st = Some st' \<Longrightarrow> trace_ok st \<Longrightarrow> trace_ok st'"
proof (induction keys arbitrary: st)
  case Nil
  then show ?case by simp
next
  case (Cons key keys)
  then show ?case
    by (auto split: option.splits dest: walk_trace_ok(1))
qed

text \<open>
  C5. In a discovery run over any list of prefixes, every call of \<^verbatim>\<open>List\<close> is made on a
  path that is in the visited set at the moment of the call, and no path is listed twice,
  whichever prefixes or links lead to it; the paths listed are exactly the paths visited.
\<close>

theorem list_called_once_after_marking:
  assumes "walkAll fuel c keys \<lparr>branches = {}, calls = []\<rparr> = Some st"
  shows "distinct (map fst (calls st))
       \<and> (\<forall>(p, seen) \<in> set (calls st). p \<in> seen \<and> seen \<subseteq> branches st)
       \<and> fst ` set (calls st) = branches st"
proof -
  have "trace_ok \<lparr>branches = {}, calls = []\<rparr>"
    by (simp add: trace_ok_def)
  with assms have "trace_ok st"
    by (rule walkAll_trace_ok)
  then show ?thesis
    by (simp add: trace_ok_def)
qed

theorem list_called_once_after_marking_witness:
  "walkAll 3 tree_client [''secret/foo/baz'', ''secret/foo/'', ''secret/foo/bar'']
     \<lparr>branches = {}, calls = []\<rparr>
   = Some \<lparr>branches = {''secret/foo'', ''secret/foo/bar'', ''secret/foo/baz'', ''secret/foo/baz/qux''},
           calls = [(''secret/foo/baz'', {''secret/foo/baz''}),
                    (''secret/foo'', {''secret/foo'', ''secret/foo/baz''}),
                    (''secret/foo/bar'', {''secret/foo'', ''secret/foo/bar'', ''secret/foo/baz''}),
                    (''secret/foo/baz/qux'',
                     {''secret/foo'', ''secret/foo/bar'', ''secret/foo/baz'', ''secret/foo/baz/qux''})]\<rparr>
   \<and> distinct [''secret/foo/baz'', ''secret/foo'', ''secret/foo/bar'', ''secret/foo/baz/qux'']"
proof -
  let ?st = "\<lparr>branches = {''secret/foo'', ''secret/foo/bar'', ''secret/foo/baz'', ''secret/foo/baz/qux''},
           calls = [(''secret/foo/baz'', {''secret/foo/baz''}),
                    (''secret/foo'', {''secret/foo'', ''secret/foo/baz''}),
                    (''secret/foo/bar'', {''secret/foo'', ''secret/foo/bar'', ''secret/foo/baz''}),
                    (''secret/foo/baz/qux'',
                     {''secret/foo'', ''secret/foo/bar'', ''secret/foo/baz'', ''secret/foo/baz/qux''})]\<rparr>"
  have w: "walkAll 3 tree_client [''secret/foo/baz'', ''secret/foo/'', ''secret/foo/bar'']
     \<lparr>branches = {}, calls = []\<rparr> = Some ?st"
    by code_simp
  show ?thesis
    using w list_called_once_after_marking [OF w] by simp
qed

subsection \<open>Termination of the discovery\<close>

lemma children_of_member:
  assumes "logical_List c key = Inr resp" and "keyList_of resp = Some keyList"
    and "JString s \<in> set keyList"
  shows "strip_slash (path_Join [key, ''/'', s]) \<in> set (children_of c key)"
  using assms by (force simp: children_of_def)

lemma card_unvisited_insert:
  assumes "finite R" and "key \<in> R" and "key \<notin> B" and "card (R - B) < Suc n"
  shows "card (R - insert key B) < n"
proof -
  have "key \<in> R - B" using assms by simp
  moreover have "finite (R - B)" using assms by simp
  ultimately have "card (R - B - {key}) < card (R - B)"
    by (meson card_Diff1_less)
  moreover have "R - insert key B = R - B - {key}" by auto
  ultimately show ?thesis using assms(4) by simp
qed

lemma card_unvisited_mono:
  assumes "finite R" and "B \<subseteq> B'" and "card (R - B) < n"
  shows "card (R - B') < n"
proof -
  have "card (R - B') \<le> card (R - B)"
    by (rule card_mono) (use assms in auto)
  with assms(3) show ?thesis by simp
qed

lemma walk_returns:
  "finite R \<Longrightarrow> closed_under c R \<Longrightarrow> strip_slash key0 \<in> R \<Longrightarrow> card (R - branches st) < n
     \<Longrightarrow> \<exists>r st'. walkTree n c key0 st = Some (r, st')"
  "finite R \<Longrightarrow> closed_under c R \<Longrightarrow> \<forall>s. JString s \<in> set ks \<longrightarrow> strip_slash (path_Join [key, ''/'', s]) \<in> R
     \<Longrightarrow> card (R - branches st) < n
     \<Longrightarrow> \<exists>st'. walkKeys n c key ks st = Some st'"
proof (induction n c key0 st and n c key ks st rule: walkTree_walkKeys.induct)
  case (1 c key0 st)
  then show ?case by simp
next
  case (2 n c key0 st)
  let ?key = "strip_slash key0"
  let ?st1 = "st\<lparr>branches := insert ?key (branches st),
                 calls := calls st @ [(?key, insert ?key (branches st))]\<rparr>"
  show ?case
  proof (cases "?key \<in> branches st")
    case True
    then show ?thesis by (simp add: Let_def)
  next
    case False
    show ?thesis
    proof (cases "logical_List c ?key")
      case (Inl err)
      with False show ?thesis by (simp add: Let_def)
    next
      case (Inr resp)
      show ?thesis
      proof (cases "keyList_of resp")
        case None
        with False Inr show ?thesis by (simp add: Let_def)
      next
        case (Some keyList)
        have kids: "\<forall>s. JString s \<in> set keyList \<longrightarrow> strip_slash (path_Join [?key, ''/'', s]) \<in> R"
          using children_of_member [OF Inr Some] \<open>closed_under c R\<close> \<open>?key \<in> R\<close>
          by (auto simp: closed_under_def)
        have less: "card (R - branches ?st1) < n"
          using card_unvisited_insert [OF \<open>finite R\<close> \<open>?key \<in> R\<close> False] "2.prems"(4) by simp
        from "2.IH" [OF refl False refl refl Inr Some \<open>finite R\<close> \<open>closed_under c R\<close>] kids less
        obtain st2 where "walkKeys n c ?key keyList ?st1 = Some st2"
          by auto
        with False Inr Some show ?thesis by (simp add: Let_def)
      qed
    qed
  qed
next
  case (3 n c key st)
  then show ?case by simp
next
  case (4 n c key innerKey rest st)
  note fin = \<open>finite R\<close> and cl = \<open>closed_under c R\<close> and less = \<open>card (R - branches st) < n\<close>
  have rest: "\<forall>s. JString s \<in> set rest \<longrightarrow> strip_slash (path_Join [key, ''/'', s]) \<in> R"
    using "4.prems"(3) by simp
  show ?case
  proof (cases innerKey)
    case (JString s)
    then have "strip_slash (path_Join [key, ''/'', s]) \<in> R"
      using "4.prems"(3) by simp
    from "4.IH"(2) [OF JString fin cl this less]
    obtain r st1 where w: "walkTree n c (path_Join [key, ''/'', s]) st = Some (r, st1)"
      by auto
    then have "branches st \<subseteq> branches st1"
      by (rule walk_branches_mono)
    then have "card (R - branches st1) < n"
      using card_unvisited_mono [OF fin _ less] by simp
    from "4.IH"(3) [OF JString w refl fin cl rest this]
    show ?thesis using JString w by simp
  next
    case JNull
    with "4.IH"(1) [OF JNull fin cl rest less] show ?thesis by simp
  next
    case (JList xs)
    with "4.IH"(4) [OF JList fin cl rest less] show ?thesis by simp
  next
    case (JMap m)
    with "4.IH"(5) [OF JMap fin cl rest less] show ?thesis by simp
  next
    case JOther
    with "4.IH"(6) [OF JOther fin cl rest less] show ?thesis by simp
  qed
qed

lemma walkAll_returns:
  assumes "finite R" and "closed_under c R"
  shows "\<forall>k\<in>set keys. strip_slash k \<in> R \<Longrightarrow> card (R - branches st) < n
          \<Longrightarrow> \<exists>st'. walkAll n c keys st = Some st'"
proof (induction keys arbitrary: st)
  case Nil
  then show ?case by simp
next
  case (Cons key keys)
  then have "strip_slash key \<in> R" by simp
  from walk_returns(1) [OF assms this Cons.prems(2)]
  obtain r st1 where w: "walkTree n c key st = Some (r, st1)" by auto
  then have "branches st \<subseteq> branches st1" by (rule walk_branches_mono)
  then have "card (R - branches st1) < n"
    using card_unvisited_mono [OF assms(1) _ Cons.prems(2)] by simp
  with Cons.IH [of st1] Cons.prems(1) obtain st' where "walkAll n c keys st1 = Some st'"
    by auto
  with w show ?case by simp
qed

lemma walk_fuel_mono:
  "walkTree n c key0 st = Some x \<Longrightarrow> n \<le> m \<Longrightarrow> walkTree m c key0 st = Some x"
  "walkKeys n c key ks st = Some y \<Longrightarrow> n \<le> m \<Longrightarrow> walkKeys m c key ks st = Some y"
proof (induction n c key0 st and n c key ks st arbitrary: x m and y m
       rule: walkTree_walkKeys.induct)
  case (1 c key0 st)
  then show ?case by simp
next
  case (2 n c key0 st)
  from \<open>Suc n \<le> m\<close> obtain m' where m: "m = Suc m'" and le: "n \<le> m'"
    by (cases m) auto
  let ?key = "strip_slash key0"
  let ?st1 = "st\<lparr>branches := insert ?key (branches st),
                 calls := calls st @ [(?key, insert ?key (branches st))]\<rparr>"
  show ?case
  proof (cases "?key \<in> branches st")
    case True
    with "2.prems"(1) show ?thesis by (simp add: m Let_def)
  next
    case False
    show ?thesis
    proof (cases "logical_List c ?key")
      case (Inl err)
      with False "2.prems"(1) show ?thesis by (simp add: m Let_def)
    next
      case (Inr resp)
      show ?thesis
      proof (cases "keyList_of resp")
        case None
        with False Inr "2.prems"(1) show ?thesis by (simp add: m Let_def)
      next
        case (Some keyList)
        with False Inr "2.prems"(1) obtain st2
          where k: "walkKeys n c ?key keyList ?st1 = Some st2" and x: "x = (None, st2)"
          by (auto simp: Let_def split: option.splits)
        from "2.IH" [OF refl False refl refl Inr Some _ le, of st2] k
        have "walkKeys m' c ?key keyList ?st1 = Some st2" by simp
        with False Inr Some x show ?thesis by (simp add: m Let_def)
      qed
    qed
  qed
next
  case (3 n c key st)
  then show ?case by simp
next
  case (4 n c key innerKey rest st)
  show ?case
  proof (cases innerKey)
    case (JString s)
    with "4.prems"(1) obtain r st1
      where w: "walkTree n c (path_Join [key, ''/'', s]) st = Some (r, st1)"
        and k: "walkKeys n c key rest st1 = Some y"
      by (auto split: option.splits)
    from "4.IH"(2) [OF JString w \<open>n \<le> m\<close>]
    have w': "walkTree m c (path_Join [key, ''/'', s]) st = Some (r, st1)" .
    from "4.IH"(3) [OF JString w refl k \<open>n \<le> m\<close>]
    have "walkKeys m c key rest st1 = Some y" .
    with w' JString show ?thesis by simp
  next
    case JNull
    with "4.IH"(1) [OF JNull _ \<open>n \<le> m\<close>, of y] "4.prems"(1) show ?thesis by simp
  next
    case (JList xs)
    with "4.IH"(4) [OF JList _ \<open>n \<le> m\<close>, of y] "4.prems"(1) show ?thesis by simp
  next
    case (JMap mp)
    with "4.IH"(5) [OF JMap _ \<open>n \<le> m\<close>, of y] "4.prems"(1) show ?thesis by simp
  next
    case JOther
    with "4.IH"(6) [OF JOther _ \<open>n \<le> m\<close>, of y] "4.prems"(1) show ?thesis by simp
  qed
qed

lemma walkAll_fuel_mono:
  "walkAll n c keys st = Some y \<Longrightarrow> n \<le> m \<Longrightarrow> walkAll m c keys st = Some y"
proof (induction keys arbitrary: st)
  case Nil
  then show ?case by simp
next
  case (Cons key keys)
  from Cons.prems(1) obtain r st1
    where w: "walkTree n c key st = Some (r, st1)" and a: "walkAll n c keys st1 = Some y"
    by (auto split: option.splits)
  from walk_fuel_mono(1) [OF w \<open>n \<le> m\<close>] Cons.IH [OF a \<open>n \<le> m\<close>]
  show ?case by simp
qed

text \<open>
  C6. Let the paths reachable from the prefixes lie in a finite set \<open>R\<close> that holds every
  path a walk recurses into from a member of \<open>R\<close>; links back to visited paths are allowed.
  Then the discovery returns: with every bound on the depth of the recursion above the
  size of \<open>R\<close> the run ends in one and the same state, and so \<open>GetValues\<close> returns. A walk
  at a path already visited returns at once, with no error and the state unchanged.
\<close>

theorem discovery_terminates:
  assumes "finite R" and "closed_under c R" and "\<forall>k\<in>set keys. strip_slash k \<in> R"
  shows "(\<exists>st'. \<forall>fuel. card R < fuel \<longrightarrow>
            walkAll fuel c keys \<lparr>branches = {}, calls = []\<rparr> = Some st')
       \<and> (\<forall>fuel. card R < fuel \<longrightarrow> (\<exists>res. GetValues fuel c marshal range_order keys = Some res))
       \<and> (\<forall>n key st. strip_slash key \<in> branches st \<longrightarrow> walkTree (Suc n) c key st = Some (None, st))"
proof -
  let ?st0 = "\<lparr>branches = {}, calls = []\<rparr>"
  have "card (R - branches ?st0) < Suc (card R)" by simp
  from walkAll_returns [OF assms(1,2) assms(3) this]
  obtain st' where s: "walkAll (Suc (card R)) c keys ?st0 = Some st'" by auto
  have all: "\<forall>fuel. card R < fuel \<longrightarrow> walkAll fuel c keys ?st0 = Some st'"
  proof (intro allI impI)
    fix fuel assume "card R < fuel"
    then have "Suc (card R) \<le> fuel" by simp
    from walkAll_fuel_mono [OF s this] show "walkAll fuel c keys ?st0 = Some st'" .
  qed
  then have "\<forall>fuel. card R < fuel \<longrightarrow> (\<exists>res. GetValues fuel c marshal range_order keys = Some res)"
    by (simp add: GetValues_def)
  moreover have "\<forall>n key st. strip_slash key \<in> branches st \<longrightarrow> walkTree (Suc n) c key st = Some (None, st)"
    by simp
  ultimately show ?thesis using all by blast
qed

theorem discovery_terminates_witness:
  "finite {''secret/foo'', ''secret/foo/bar'', ''secret/foo/baz'', ''secret/foo/baz/qux''}
   \<and> closed_under tree_client {''secret/foo'', ''secret/foo/bar'', ''secret/foo/baz'', ''secret/foo/baz/qux''}
   \<and> ''secret/foo'' \<in> set (children_of tree_client ''secret/foo/baz'')
   \<and> (\<exists>st'. \<forall>fuel. 4 < fuel \<longrightarrow>
         walkAll fuel tree_client [''secret/foo/''] \<lparr>branches = {}, calls = []\<rparr> = Some st')"
proof -
  let ?R = "{''secret/foo'', ''secret/foo/bar'', ''secret/foo/baz'', ''secret/foo/baz/qux''}"
  have f: "finite ?R" by simp
  have c: "closed_under tree_client ?R" by code_simp
  have k: "\<forall>k\<in>set [''secret/foo/'']. strip_slash k \<in> ?R" by code_simp
  have cyc: "''secret/foo'' \<in> set (children_of tree_client ''secret/foo/baz'')" by code_simp
  have n: "card ?R = 4" by simp
  show ?thesis
    using f c cyc discovery_terminates [OF f c k, of const_marshal "order_of []"]
    unfolding n by blast
qed

subsection \<open>Joining paths\<close>

text \<open>The model of \<^verbatim>\<open>path.Clean\<close> on rows of the table the library is tested with.\<close>

lemma path_Clean_examples:
  "map path_Clean
     ['''', ''abc'', ''a/b/c'', ''.'', ''..'', ''../../abc'', ''/abc'', ''/'',
      ''abc/'', ''a/b/c/'', ''./'', ''../../'', ''/abc/'',
      ''abc//def//ghi'', ''//abc'', ''//abc//'', ''abc//'',
      ''abc/./def'', ''/./abc/def'', ''abc/.'',
      ''abc/def/ghi/../jkl'', ''abc/def/../..'', ''/abc/def/../..'', ''abc/def/../../..'',
      ''/abc/def/../../..'', ''abc/def/../../../ghi/jkl/../../../mno'',
      ''abc/./../def'', ''abc/../../././../def'']
   = [''.'', ''abc'', ''a/b/c'', ''.'', ''..'', ''../../abc'', ''/abc'', ''/'',
      ''abc'', ''a/b/c'', ''.'', ''../..'', ''/abc'',
      ''abc/def/ghi'', ''/abc'', ''/abc'', ''abc'',
      ''abc/def'', ''/abc/def'', ''abc'',
      ''abc/def/jkl'', ''.'', ''/'', ''..'',
      ''/'', ''../../mno'',
      ''def'', ''../../def'']"
  by code_simp

lemma path_Join_examples:
  "map path_Join [[''a'', ''b''], [''a'', []], [[], ''b''], [''/'', ''a''], [''a/'', ''b''], [[], []], []]
   = [''a/b'', ''a'', ''b'', ''/a'', ''a/b'', [], []]"
  by code_simp

lemma split_slash_not_Nil: "split_slash s \<noteq> []"
  by (induction s) (auto split: list.splits)

lemma split_slash_append:
  "split_slash (p @ CHR ''/'' # q) = split_slash p @ split_slash q"
proof (induction p)
  case Nil
  then show ?case by simp
next
  case (Cons a p)
  then show ?case
    using split_slash_not_Nil [of p] by (auto split: list.splits)
qed

lemma clean_elem_empty: "clean_elem rooted out [] = out"
  by (simp add: clean_elem_def)

lemma path_Clean_trailing:
  assumes "p \<noteq> []"
  shows "path_Clean (p @ ''///'') = path_Clean p"
proof -
  have "split_slash (p @ ''///'') = split_slash p @ [[], [], []]"
    using split_slash_append [of p "''//''"] by simp
  moreover have "hd (p @ ''///'') = hd p" using assms by simp
  ultimately show ?thesis
    using assms by (simp add: path_Clean_def clean_elem_empty)
qed

lemma join_slash_Nil: "join_slash out = [] \<Longrightarrow> out = [] \<or> out = [[]]"
  by (induction out rule: join_slash.induct) auto

lemma clean_out_no_empty:
  "[] \<notin> set acc \<Longrightarrow> [] \<notin> set (foldl (clean_elem r) acc es)"
proof (induction es arbitrary: acc)
  case Nil
  then show ?case by simp
next
  case (Cons e es)
  have "[] \<notin> set (clean_elem r acc e)"
    using Cons.prems by (auto simp: clean_elem_def dest: in_set_butlastD)
  then show ?case using Cons.IH by simp
qed

lemma path_Clean_not_Nil: "path_Clean p \<noteq> []"
proof -
  let ?r = "p \<noteq> [] \<and> hd p = CHR ''/''"
  let ?out = "foldl (clean_elem ?r) [] (split_slash p)"
  have "[] \<notin> set ?out" by (rule clean_out_no_empty) simp
  then have "?out \<noteq> [] \<Longrightarrow> join_slash ?out \<noteq> []"
    using join_slash_Nil [of ?out] by auto
  then show ?thesis
    by (auto simp: path_Clean_def Let_def)
qed

lemma join_empty_name:
  assumes "path_Clean p = p"
  shows "path_Join [p, ''/'', []] = p"
proof -
  from assms path_Clean_not_Nil [of p] have ne: "p \<noteq> []" by simp
  then have "path_Join [p, ''/'', []] = path_Clean (p @ ''///'')"
    by (simp add: path_Join_def)
  with ne assms show ?thesis by (simp add: path_Clean_trailing)
qed

subsection \<open>A field with the empty name\<close>

lemma map_of_filter_other:
  "k \<noteq> p \<Longrightarrow> map_of (filter (\<lambda>(k', v). k' \<noteq> p) xs) k = map_of xs k"
  by (induction xs) auto

lemma override_without_key:
  "(m ++ map_of (rev xs))(p := None) = (m ++ map_of (rev (filter (\<lambda>(k, v). k \<noteq> p) xs)))(p := None)"
proof
  fix k
  show "((m ++ map_of (rev xs))(p := None)) k
        = ((m ++ map_of (rev (filter (\<lambda>(k, v). k \<noteq> p) xs)))(p := None)) k"
  proof (cases "k = p")
    case True
    then show ?thesis by simp
  next
    case False
    have "map_of (rev (filter (\<lambda>(k, v). k \<noteq> p) xs)) k = map_of (rev xs) k"
      using map_of_filter_other [OF False, of "rev xs"] by (simp add: rev_filter)
    with False show ?thesis by (simp add: map_add_def)
  qed
qed

lemma entries_without_empty_named:
  assumes "path_Join [p, ''/'', []] = p"
  shows "filter (\<lambda>(k, v). k \<noteq> p)
           (map (\<lambda>(names, s). (join_names p names, s)) (field_leaves (without_empty_named data)))
       = filter (\<lambda>(k, v). k \<noteq> p)
           (map (\<lambda>(names, s). (join_names p names, s)) (field_leaves data))"
proof (induction data)
  case Nil
  then show ?case by (simp add: without_empty_named_def)
next
  case (Cons f data)
  obtain name v where f: "f = (name, v)" by (cases f)
  show ?case
  proof (cases "name = [] \<and> is_JString v")
    case True
    then obtain s where v: "v = JString s"
      by (cases v) (auto simp: is_JString_def)
    have "join_names p [[]] = p"
      using assms by (simp add: join_names_def)
    with Cons True f v show ?thesis
      by (simp add: without_empty_named_def)
  next
    case False
    with Cons f show ?thesis
      by (simp add: without_empty_named_def)
  qed
qed

text \<open>
  C9, for a path in cleaned form. When \<^verbatim>\<open>path.Clean\<close> leaves \<open>p\<close> as it is, joining the
  empty field name onto \<open>p\<close> gives \<open>p\<close>, and a top-level field of structured data at \<open>p\<close> that
  has the empty name and a string as content leaves nothing in the output: the iteration
  gives what the other fields give, and no entry at \<open>p\<close>.
\<close>

theorem empty_named_field_dropped:
  assumes "path_Clean p = p" and "isKV data = None"
  shows "path_Join [p, ''/'', []] = p
       \<and> store_data marshal p data vars
           = (vars ++ map_of (rev (leaf_entries p (JMap (without_empty_named data)))))(p := None)
       \<and> store_data marshal p data vars p = None"
proof -
  have j: "path_Join [p, ''/'', []] = p"
    using assms(1) by (rule join_empty_name)
  have "store_data marshal p data vars
          = (flatten p (JMap data) (vars(p \<mapsto> marshal data)))(p := None)"
    using assms(2) by (simp add: store_data_def)
  also have "\<dots> = (vars(p \<mapsto> marshal data) ++ map_of (rev (leaf_entries p (JMap data))))(p := None)"
    by (simp add: flatten_leaf_entries)
  also have "\<dots> = (vars ++ map_of (rev (leaf_entries p (JMap data))))(p := None)"
    by (auto simp: fun_eq_iff map_add_def split: option.splits)
  also have "\<dots> = (vars ++ map_of (rev (filter (\<lambda>(k, v). k \<noteq> p) (leaf_entries p (JMap data)))))(p := None)"
    by (rule override_without_key)
  also have "\<dots> = (vars ++ map_of (rev (filter (\<lambda>(k, v). k \<noteq> p)
                       (leaf_entries p (JMap (without_empty_named data))))))(p := None)"
    using entries_without_empty_named [OF j, of data] by (simp add: leaf_entries_def)
  also have "\<dots> = (vars ++ map_of (rev (leaf_entries p (JMap (without_empty_named data)))))(p := None)"
    by (rule override_without_key [symmetric])
  finally have "store_data marshal p data vars
          = (vars ++ map_of (rev (leaf_entries p (JMap (without_empty_named data)))))(p := None)" .
  with j show ?thesis by simp
qed

theorem empty_named_field_dropped_witness:
  "path_Clean ''secret/app'' = ''secret/app''
   \<and> isKV [([], JString ''x''), (''k'', JString ''y'')] = None
   \<and> store_data const_marshal ''secret/app'' [([], JString ''x''), (''k'', JString ''y'')] Map.empty
       = [''secret/app/k'' \<mapsto> ''y'']"
proof -
  have c: "path_Clean ''secret/app'' = ''secret/app''"
    by (simp add: path_Clean_def clean_elem_def)
  have k: "isKV [([], JString ''x''), (''k'', JString ''y'')] = None"
    by (simp add: isKV_def)
  have j: "path_Join [''secret/app'', ''/'', ''k''] = ''secret/app/k''"
    by (simp add: path_Join_def path_Clean_def clean_elem_def)
  have e: "leaf_entries ''secret/app'' (JMap (without_empty_named [([], JString ''x''), (''k'', JString ''y'')]))
            = [(''secret/app/k'', ''y'')]"
    by (simp add: leaf_entries_def without_empty_named_def is_JString_def join_names_def j)
  show ?thesis
    using c k empty_named_field_dropped [OF c k, of const_marshal Map.empty]
    by (simp add: e fun_eq_iff map_add_def)
qed

text \<open>
  At the prefix \<^verbatim>\<open>secret//app\<close> the empty field name joins to \<^verbatim>\<open>secret/app\<close>, another key
  than the one deleted, and the string of the field is in the output.
\<close>

theorem empty_named_field_kept_at_unclean_path:
  "path_Join [''secret//app'', ''/'', []] = ''secret/app''
   \<and> GetValues 1 unclean_client const_marshal (order_of [''secret//app'']) [''secret//app'']
       = Some ([''secret//app''], Inr [''secret/app'' \<mapsto> ''x'', ''secret/app/k'' \<mapsto> ''y''])"
proof -
  have j0: "path_Join [''secret//app'', ''/'', []] = ''secret/app''"
    by (simp add: path_Join_def path_Clean_def clean_elem_def)
  have j1: "path_Join [''secret//app'', ''/'', ''k''] = ''secret/app/k''"
    by (simp add: path_Join_def path_Clean_def clean_elem_def)
  have w: "walkAll 1 unclean_client [''secret//app''] \<lparr>branches = {}, calls = []\<rparr>
            = Some \<lparr>branches = {''secret//app''}, calls = [(''secret//app'', {''secret//app''})]\<rparr>"
    by code_simp
  have k: "isKV [([], JString ''x''), (''k'', JString ''y'')] = None"
    by (simp add: isKV_def)
  have s: "store_data const_marshal ''secret//app'' [([], JString ''x''), (''k'', JString ''y'')] Map.empty
            = [''secret/app'' \<mapsto> ''x'', ''secret/app/k'' \<mapsto> ''y'']"
    by (simp add: store_data_def k j0 j1 fun_eq_iff)
  have "readLoop unclean_client const_marshal [''secret//app''] ([], Map.empty)
          = ([''secret//app''], Inr [''secret/app'' \<mapsto> ''x'', ''secret/app/k'' \<mapsto> ''y''])"
    by (simp add: unclean_client_def s)
  with w j0 show ?thesis
    by (simp add: GetValues_def order_of_def)
qed

subsection \<open>The path a walk recurses into\<close>

lemma clean_no_dots:
  assumes "\<forall>e\<in>set es. e \<noteq> ''.'' \<and> e \<noteq> ''..''"
  shows "foldl (clean_elem r) acc es = acc @ filter (\<lambda>e. e \<noteq> []) es"
  using assms by (induction es arbitrary: acc) (auto simp: clean_elem_def)

lemma split_slash_hd:
  "s \<noteq> [] \<Longrightarrow> hd s \<noteq> CHR ''/'' \<Longrightarrow> hd (split_slash s) \<noteq> []"
  by (cases s) (auto split: list.splits)

lemma path_Clean_no_dots:
  assumes "s \<noteq> []" and "\<forall>e\<in>set (split_slash s). e \<noteq> ''.'' \<and> e \<noteq> ''..''"
  shows "path_Clean s = collapse_slashes s"
proof (cases "hd s = CHR ''/''")
  case True
  with assms show ?thesis
    by (simp add: path_Clean_def collapse_slashes_def clean_no_dots)
next
  case False
  have "hd (split_slash s) \<in> set (split_slash s)"
    using split_slash_not_Nil [of s] by simp
  with split_slash_hd [OF assms(1) False]
  have "filter (\<lambda>e. e \<noteq> []) (split_slash s) \<noteq> []"
    by (auto simp: filter_empty_conv)
  with assms False show ?thesis
    by (simp add: path_Clean_def collapse_slashes_def clean_no_dots)
qed

lemma collapse_extra_slashes:
  "collapse_slashes (p @ ''/'' @ ''/'' @ q) = collapse_slashes (p @ ''/'' @ q)"
proof -
  have "split_slash (p @ ''/'' @ ''/'' @ q) = split_slash p @ [] # split_slash q"
    using split_slash_append [of p "''/'' @ q"] by simp
  moreover have "split_slash (p @ ''/'' @ q) = split_slash p @ split_slash q"
    using split_slash_append [of p q] by simp
  moreover have "hd (p @ ''/'' @ ''/'' @ q) = hd (p @ ''/'' @ q)"
    by (cases p) simp_all
  ultimately show ?thesis
    by (simp add: collapse_slashes_def)
qed

lemma join_is_collapse:
  assumes "no_dot_elems p" and "no_dot_elems s"
  shows "path_Join [p, ''/'', s] = collapse_slashes (p @ ''/'' @ s)"
proof -
  let ?joined = "if p = [] then ''//'' @ s else p @ ''///'' @ s"
  have pj: "path_Join [p, ''/'', s] = path_Clean ?joined"
    by (cases "p = []") (simp_all add: path_Join_def)
  have ne: "?joined \<noteq> []" by simp
  have el: "set (split_slash ?joined) \<subseteq> set (split_slash p) \<union> {[]} \<union> set (split_slash s)"
  proof (cases "p = []")
    case True
    have "split_slash (''//'' @ s) = [] # [] # split_slash s" by simp
    with True show ?thesis by auto
  next
    case False
    have "split_slash (p @ ''///'' @ s) = split_slash p @ [] # [] # split_slash s"
      using split_slash_append [of p "''//'' @ s"] by simp
    with False show ?thesis by auto
  qed
  have "\<forall>e\<in>set (split_slash ?joined). e \<noteq> ''.'' \<and> e \<noteq> ''..''"
    using el assms by (auto simp: no_dot_elems_def list_all_iff)
  from path_Clean_no_dots [OF ne this] pj
  have "path_Join [p, ''/'', s] = collapse_slashes ?joined"
    by simp
  also have "\<dots> = collapse_slashes (p @ ''/'' @ s)"
  proof (cases "p = []")
    case True
    have "collapse_slashes ([] @ ''/'' @ ''/'' @ s) = collapse_slashes ([] @ ''/'' @ s)"
      by (rule collapse_extra_slashes)
    with True show ?thesis by simp
  next
    case False
    have "collapse_slashes (p @ ''/'' @ ''/'' @ (''/'' @ s)) = collapse_slashes (p @ ''/'' @ (''/'' @ s))"
      by (rule collapse_extra_slashes)
    also have "\<dots> = collapse_slashes (p @ ''/'' @ s)"
      using collapse_extra_slashes [of p s] by simp
    finally show ?thesis using False by simp
  qed
  finally show ?thesis .
qed

text \<open>
  C8, without dot elements. When no slash-separated element of the current path \<open>p\<close> or of
  the child name \<open>s\<close> is \<^verbatim>\<open>.\<close> or \<^verbatim>\<open>..\<close>, the walk recurses into \<open>p\<close> and \<open>s\<close> joined with
  a separator and the redundant separators collapsed, the elements themselves unchanged.
  An entry of the listing that is not a string is skipped, with no error.
\<close>

theorem child_path_joined:
  "(no_dot_elems p \<and> no_dot_elems s \<longrightarrow>
      walkKeys n c p (JString s # rest) st =
        (case walkTree n c (collapse_slashes (p @ ''/'' @ s)) st of
           None \<Rightarrow> None
         | Some (r, st') \<Rightarrow> walkKeys n c p rest st'))
   \<and> ((\<forall>t. e \<noteq> JString t) \<longrightarrow> walkKeys n c p (e # rest) st = walkKeys n c p rest st)"
proof (intro conjI impI)
  assume "no_dot_elems p \<and> no_dot_elems s"
  then have "path_Join [p, ''/'', s] = collapse_slashes (p @ ''/'' @ s)"
    by (simp add: join_is_collapse)
  then show "walkKeys n c p (JString s # rest) st =
        (case walkTree n c (collapse_slashes (p @ ''/'' @ s)) st of
           None \<Rightarrow> None
         | Some (r, st') \<Rightarrow> walkKeys n c p rest st')"
    by simp
next
  assume "\<forall>t. e \<noteq> JString t"
  then show "walkKeys n c p (e # rest) st = walkKeys n c p rest st"
    by (cases e) simp_all
qed

theorem child_path_joined_witness:
  "no_dot_elems ''secret/foo'' \<and> no_dot_elems ''baz/''
   \<and> collapse_slashes (''secret/foo'' @ ''/'' @ ''baz/'') = ''secret/foo/baz''
   \<and> walkKeys 3 tree_client ''secret/foo'' [JOther, JString ''baz/''] \<lparr>branches = {}, calls = []\<rparr>
       = (case walkTree 3 tree_client ''secret/foo/baz'' \<lparr>branches = {}, calls = []\<rparr> of
            None \<Rightarrow> None
          | Some (r, st') \<Rightarrow> Some st')
   \<and> map_option branches
        (walkKeys 3 tree_client ''secret/foo'' [JOther, JString ''baz/''] \<lparr>branches = {}, calls = []\<rparr>)
       = Some {''secret/foo'', ''secret/foo/bar'', ''secret/foo/baz'', ''secret/foo/baz/qux''}"
proof -
  have d: "no_dot_elems ''secret/foo'' \<and> no_dot_elems ''baz/''"
    by (simp add: no_dot_elems_def)
  have c: "collapse_slashes (''secret/foo'' @ ''/'' @ ''baz/'') = ''secret/foo/baz''"
    by (simp add: collapse_slashes_def)
  have b: "map_option branches
        (walkKeys 3 tree_client ''secret/foo'' [JOther, JString ''baz/''] \<lparr>branches = {}, calls = []\<rparr>)
       = Some {''secret/foo'', ''secret/foo/bar'', ''secret/foo/baz'', ''secret/foo/baz/qux''}"
    by code_simp
  have skip: "walkKeys 3 tree_client ''secret/foo'' [JOther, JString ''baz/''] \<lparr>branches = {}, calls = []\<rparr>
       = walkKeys 3 tree_client ''secret/foo'' [JString ''baz/''] \<lparr>branches = {}, calls = []\<rparr>"
    using child_path_joined [of "''secret/foo''" "''baz/''" 3 tree_client "[JString ''baz/'']"
        "\<lparr>branches = {}, calls = []\<rparr>" JOther]
    by simp
  have rec: "walkKeys 3 tree_client ''secret/foo'' [JString ''baz/''] \<lparr>branches = {}, calls = []\<rparr>
       = (case walkTree 3 tree_client ''secret/foo/baz'' \<lparr>branches = {}, calls = []\<rparr> of
            None \<Rightarrow> None
          | Some (r, st') \<Rightarrow> Some st')"
    using d child_path_joined [of "''secret/foo''" "''baz/''" 3 tree_client "[]"
        "\<lparr>branches = {}, calls = []\<rparr>" JOther]
    unfolding c by (simp split: option.splits)
  show ?thesis
    using d c b skip rec by simp
qed

text \<open>
  The child name \<^verbatim>\<open>..\<close> at \<^verbatim>\<open>secret/app\<close> joins to \<^verbatim>\<open>secret\<close>, and that is the path the
  walk lists next: the element \<^verbatim>\<open>app\<close> is gone.
\<close>

theorem dotdot_child_leaves_parent:
  "path_Join [''secret/app'', ''/'', ''..''] = ''secret''
   \<and> collapse_slashes (''secret/app'' @ ''/'' @ ''..'') = ''secret/app/..''
   \<and> walkTree 2 dotdot_client ''secret/app'' \<lparr>branches = {}, calls = []\<rparr>
       = Some (None, \<lparr>branches = {''secret/app'', ''secret''},
                      calls = [(''secret/app'', {''secret/app''}),
                               (''secret'', {''secret/app'', ''secret''})]\<rparr>)"
proof -
  have "path_Join [''secret/app'', ''/'', ''..''] = ''secret''"
    by (simp add: path_Join_def path_Clean_def clean_elem_def)
  moreover have "collapse_slashes (''secret/app'' @ ''/'' @ ''..'') = ''secret/app/..''"
    by (simp add: collapse_slashes_def)
  moreover have "walkTree 2 dotdot_client ''secret/app'' \<lparr>branches = {}, calls = []\<rparr>
       = Some (None, \<lparr>branches = {''secret/app'', ''secret''},
                      calls = [(''secret/app'', {''secret/app''}),
                               (''secret'', {''secret/app'', ''secret''})]\<rparr>)"
    by code_simp
  ultimately show ?thesis by simp
qed

subsection \<open>The order of the read phase\<close>

lemma readLoop_no_error:
  assumes "\<forall>k\<in>set order. \<forall>e. logical_Read c k \<noteq> Inl e"
  shows "readLoop c marshal order (reads, vars)
          = (reads @ order, Inr (foldl (contribute c marshal) vars order))"
  using assms
proof (induction order arbitrary: reads vars)
  case Nil
  then show ?case by simp
next
  case (Cons key order)
  then show ?case
    by (cases "logical_Read c key")
       (auto simp: contribute_def data_at_def split: option.splits)
qed

lemma contribute_frame:
  assumes "k \<notin> touched c key"
  shows "contribute c marshal vars key k = vars k"
proof (cases "data_at c key")
  case None
  then show ?thesis by (simp add: contribute_def)
next
  case (Some data)
  show ?thesis
  proof (cases "isKV data")
    case None
    with Some assms
    have k: "k \<noteq> key" and nk: "k \<notin> fst ` set (leaf_entries key (JMap data))"
      by (auto simp: touched_def)
    from nk have "map_of (rev (leaf_entries key (JMap data))) k = None"
      by (simp add: map_of_eq_None_iff)
    with Some None k show ?thesis
      by (simp add: contribute_def store_data_def flatten_leaf_entries map_add_def)
  next
    case (Some val)
    with \<open>data_at c key = Some data\<close> assms show ?thesis
      by (auto simp: contribute_def store_data_def touched_def)
  qed
qed

lemma contribute_fixed:
  assumes "k \<in> touched c key"
  shows "contribute c marshal vars key k = contribute c marshal vars' key k"
proof (cases "data_at c key")
  case None
  with assms show ?thesis by (simp add: touched_def)
next
  case (Some data)
  show ?thesis
  proof (cases "isKV data")
    case None
    show ?thesis
    proof (cases "k = key")
      case True
      with Some None show ?thesis
        by (simp add: contribute_def store_data_def)
    next
      case False
      with Some None assms have "k \<in> fst ` set (leaf_entries key (JMap data))"
        by (auto simp: touched_def)
      then have "map_of (rev (leaf_entries key (JMap data))) k \<noteq> None"
        by (simp add: map_of_eq_None_iff)
      with Some None False show ?thesis
        by (auto simp: contribute_def store_data_def flatten_leaf_entries map_add_def)
    qed
  next
    case (Some val)
    with \<open>data_at c key = Some data\<close> assms show ?thesis
      by (auto simp: contribute_def store_data_def touched_def)
  qed
qed

lemma foldl_contribute_untouched:
  "\<forall>q\<in>set order. k \<notin> touched c q \<Longrightarrow> foldl (contribute c marshal) vars order k = vars k"
  by (induction order arbitrary: vars) (simp_all add: contribute_frame)

lemma foldl_contribute_owner:
  assumes "p \<in> set order" and "k \<in> touched c p"
    and "\<forall>q\<in>set order. q \<noteq> p \<longrightarrow> k \<notin> touched c q"
  shows "foldl (contribute c marshal) vars order k = contribute c marshal Map.empty p k"
  using assms
proof (induction order arbitrary: vars rule: rev_induct)
  case Nil
  then show ?case by simp
next
  case (snoc x xs)
  show ?case
  proof (cases "x = p")
    case True
    have "foldl (contribute c marshal) vars (xs @ [x]) k
            = contribute c marshal (foldl (contribute c marshal) vars xs) p k"
      using True by simp
    also have "\<dots> = contribute c marshal Map.empty p k"
      using snoc.prems(2) by (rule contribute_fixed)
    finally show ?thesis .
  next
    case False
    with snoc.prems have "k \<notin> touched c x" and "p \<in> set xs" by auto
    with snoc show ?thesis by (simp add: contribute_frame)
  qed
qed

lemma foldl_contribute_order:
  assumes "set order1 = set order2" and "separate_keys c (set order1)"
  shows "foldl (contribute c marshal) vars order1 = foldl (contribute c marshal) vars order2"
proof
  fix k
  show "foldl (contribute c marshal) vars order1 k = foldl (contribute c marshal) vars order2 k"
  proof (cases "\<exists>p\<in>set order1. k \<in> touched c p")
    case True
    then obtain p where p: "p \<in> set order1" "k \<in> touched c p" by auto
    have others: "\<forall>q\<in>set order1. q \<noteq> p \<longrightarrow> k \<notin> touched c q"
      using assms(2) p by (auto simp: separate_keys_def)
    from foldl_contribute_owner [OF p others]
      foldl_contribute_owner [of p order2 k c marshal vars] p others assms(1)
    show ?thesis by simp
  next
    case False
    then show ?thesis
      using assms(1) by (simp add: foldl_contribute_untouched)
  qed
qed

subsection \<open>The order of the fields\<close>

lemma field_leaves_append: "field_leaves (xs @ ys) = field_leaves xs @ field_leaves ys"
  by (induction xs) auto

lemma same_leaves:
  "same_value v w \<Longrightarrow> set (string_leaves v) = set (string_leaves w)"
  "same_fields xs ys \<Longrightarrow> set (field_leaves xs) = set (field_leaves ys)"
proof (induction rule: same_value_same_fields.inducts)
  case (same_field v w xs ys zs name)
  then show ?case
    by (auto simp: field_leaves_append)
qed simp_all

lemma same_leaf_entries:
  "same_fields xs ys \<Longrightarrow> set (leaf_entries p (JMap xs)) = set (leaf_entries p (JMap ys))"
  by (simp add: leaf_entries_def same_leaves(2))

inductive_cases same_fields_NilE: "same_fields [] ys"

inductive_cases same_fields_Nil2E: "same_fields xs []"

inductive_cases same_fields_ConsE: "same_fields (f # xs) ys"

inductive_cases same_value_JStringE: "same_value (JString s) w"

inductive_cases same_value_JString2E: "same_value v (JString s)"

lemma same_fields_scalar:
  assumes "same_fields d1 d2"
  shows "d1 = [(''value'', JString s)] \<longleftrightarrow> d2 = [(''value'', JString s)]"
proof
  assume "d1 = [(''value'', JString s)]"
  with assms have "same_fields [(''value'', JString s)] d2" by simp
  then show "d2 = [(''value'', JString s)]"
    by (auto elim!: same_fields_ConsE same_fields_NilE same_value_JStringE)
next
  assume d2: "d2 = [(''value'', JString s)]"
  show "d1 = [(''value'', JString s)]"
  proof (cases d1)
    case Nil
    with assms d2 show ?thesis by (auto elim: same_fields_NilE)
  next
    case (Cons f xs)
    with assms d2 have "same_fields (f # xs) [(''value'', JString s)]" by simp
    then show ?thesis
      unfolding Cons
      by (auto elim!: same_fields_ConsE same_fields_Nil2E same_value_JString2E
            simp: append_eq_Cons_conv Cons_eq_append_conv)
  qed
qed

lemma same_fields_isKV:
  assumes "same_fields d1 d2"
  shows "isKV d1 = isKV d2"
proof (cases "isKV d1")
  case None
  then have "\<forall>s. d2 \<noteq> [(''value'', JString s)]"
    using same_fields_scalar [OF assms] by (simp add: isKV_None_iff)
  then have "isKV d2 = None" by (simp add: isKV_None_iff)
  with None show ?thesis by simp
next
  case (Some s)
  then have "d2 = [(''value'', JString s)]"
    using same_fields_scalar [OF assms] by (simp add: isKV_Some_iff)
  then have "isKV d2 = Some s" by (simp add: isKV_Some_iff)
  with Some show ?thesis by simp
qed

lemma map_of_single_valued:
  assumes "single_valued (set xs)"
  shows "map_of xs k = Some v \<longleftrightarrow> (k, v) \<in> set xs"
proof
  assume "map_of xs k = Some v"
  then show "(k, v) \<in> set xs" by (rule map_of_SomeD)
next
  assume in_xs: "(k, v) \<in> set xs"
  then obtain v' where v': "map_of xs k = Some v'"
    using weak_map_of_SomeI by fastforce
  then have "(k, v') \<in> set xs" by (rule map_of_SomeD)
  with assms in_xs have "v' = v" by (auto dest: single_valuedD)
  with v' show "map_of xs k = Some v" by simp
qed

lemma map_of_same_set:
  assumes "single_valued (set xs)" and "set xs = set ys"
  shows "map_of xs = map_of ys"
proof
  fix k
  have sv: "single_valued (set ys)" using assms by simp
  show "map_of xs k = map_of ys k"
  proof (cases "map_of xs k")
    case None
    then have "k \<notin> fst ` set ys"
      using assms(2) by (simp add: map_of_eq_None_iff)
    then have "map_of ys k = None" by (simp add: map_of_eq_None_iff)
    with None show ?thesis by simp
  next
    case (Some v)
    then have "(k, v) \<in> set ys"
      using map_of_single_valued [OF assms(1)] assms(2) by simp
    then have "map_of ys k = Some v"
      by (simp add: map_of_single_valued [OF sv])
    with Some show ?thesis by simp
  qed
qed

lemma same_store_data:
  assumes "same_store c1 c2"
  shows "(data_at c1 p = None \<and> data_at c2 p = None)
       \<or> (\<exists>d1 d2. data_at c1 p = Some d1 \<and> data_at c2 p = Some d2 \<and> same_fields d1 d2)"
proof -
  from assms have "same_response (logical_Read c1 p) (logical_Read c2 p)"
    by (simp add: same_store_def)
  then show ?thesis
    by (auto simp: same_response_def data_at_def split: sum.splits option.splits)
qed

lemma same_store_no_error:
  assumes "same_store c1 c2" and "\<forall>e. logical_Read c1 p \<noteq> Inl e"
  shows "\<forall>e. logical_Read c2 p \<noteq> Inl e"
proof -
  from assms(1) have "same_response (logical_Read c1 p) (logical_Read c2 p)"
    by (simp add: same_store_def)
  with assms(2) show ?thesis
    by (auto simp: same_response_def split: sum.splits option.splits)
qed

lemma same_store_touched:
  assumes "same_store c1 c2"
  shows "touched c1 p = touched c2 p"
  using same_store_data [OF assms, of p]
  by (auto simp: touched_def same_fields_isKV same_leaf_entries split: option.splits)

lemma same_store_contribute:
  assumes "same_store c1 c2" and "k \<in> touched c1 p"
    and "\<forall>data. data_at c1 p = Some data \<longrightarrow> single_valued (set (leaf_entries p (JMap data)))"
  shows "contribute c1 m1 vars1 p k = contribute c2 m2 vars2 p k"
proof -
  from assms(2) same_store_data [OF assms(1), of p]
  obtain d1 d2 where d: "data_at c1 p = Some d1" "data_at c2 p = Some d2" "same_fields d1 d2"
    by (auto simp: touched_def)
  show ?thesis
  proof (cases "isKV d1")
    case (Some s)
    with same_fields_isKV [OF d(3)] have kv2: "isKV d2 = Some s" by simp
    from assms(2) d(1) Some have "k = p" by (simp add: touched_def)
    with d Some kv2 show ?thesis
      by (simp add: contribute_def store_data_def)
  next
    case None
    with same_fields_isKV [OF d(3)] have kv2: "isKV d2 = None" by simp
    let ?E1 = "leaf_entries p (JMap d1)" and ?E2 = "leaf_entries p (JMap d2)"
    have sv: "single_valued (set (rev ?E1))" using assms(3) d(1) by simp
    have "set (rev ?E1) = set (rev ?E2)" using same_leaf_entries [OF d(3)] by simp
    with sv have m: "map_of (rev ?E1) = map_of (rev ?E2)" by (rule map_of_same_set)
    show ?thesis
    proof (cases "k = p")
      case True
      with d None kv2 show ?thesis by (simp add: contribute_def store_data_def)
    next
      case False
      with assms(2) d None have "k \<in> fst ` set ?E1" by (simp add: touched_def)
      then have "map_of (rev ?E1) k \<noteq> None" by (simp add: map_of_eq_None_iff)
      with d None kv2 False m show ?thesis
        by (auto simp: contribute_def store_data_def flatten_leaf_entries map_add_def)
    qed
  qed
qed

lemma walk_same_listing:
  "logical_List c = logical_List c' \<Longrightarrow> walkTree n c key0 st = walkTree n c' key0 st"
  "logical_List c = logical_List c' \<Longrightarrow> walkKeys n c key ks st = walkKeys n c' key ks st"
proof (induction n c key0 st and n c key ks st rule: walkTree_walkKeys.induct)
  case (1 c key0 st)
  then show ?case by simp
next
  case (2 n c key0 st)
  note same = \<open>logical_List c = logical_List c'\<close>
  let ?key = "strip_slash key0"
  let ?st1 = "st\<lparr>branches := insert ?key (branches st),
                 calls := calls st @ [(?key, insert ?key (branches st))]\<rparr>"
  show ?case
  proof (cases "?key \<in> branches st")
    case True
    then show ?thesis by (simp add: Let_def)
  next
    case False
    show ?thesis
    proof (cases "logical_List c ?key")
      case (Inl err)
      with False same [symmetric] show ?thesis by (simp add: Let_def)
    next
      case (Inr resp)
      show ?thesis
      proof (cases "keyList_of resp")
        case None
        with False Inr same [symmetric] show ?thesis by (simp add: Let_def)
      next
        case (Some keyList)
        from "2.IH" [OF refl False refl refl Inr Some same]
        have "walkKeys n c ?key keyList ?st1 = walkKeys n c' ?key keyList ?st1" by simp
        with False Inr Some same [symmetric] show ?thesis by (simp add: Let_def)
      qed
    qed
  qed
next
  case (3 n c key st)
  then show ?case by simp
next
  case (4 n c key innerKey rest st)
  note same = \<open>logical_List c = logical_List c'\<close>
  show ?case
  proof (cases innerKey)
    case (JString s)
    from "4.IH"(2) [OF JString same]
    have w: "walkTree n c (path_Join [key, ''/'', s]) st = walkTree n c' (path_Join [key, ''/'', s]) st" .
    show ?thesis
    proof (cases "walkTree n c (path_Join [key, ''/'', s]) st")
      case None
      with w JString show ?thesis by simp
    next
      case (Some res)
      obtain r st1 where res: "res = (r, st1)" by (cases res)
      from "4.IH"(3) [OF JString Some [unfolded res] refl same]
      have k: "walkKeys n c key rest st1 = walkKeys n c' key rest st1" .
      from w Some res have w': "walkTree n c' (path_Join [key, ''/'', s]) st = Some (r, st1)"
        by simp
      show ?thesis
        unfolding JString using Some res w' k by simp
    qed
  next
    case JNull
    with "4.IH"(1) [OF JNull same] show ?thesis by simp
  next
    case (JList xs)
    with "4.IH"(4) [OF JList same] show ?thesis by simp
  next
    case (JMap m)
    with "4.IH"(5) [OF JMap same] show ?thesis by simp
  next
    case JOther
    with "4.IH"(6) [OF JOther same] show ?thesis by simp
  qed
qed

lemma walkAll_same_listing:
  "logical_List c = logical_List c' \<Longrightarrow> walkAll n c keys st = walkAll n c' keys st"
proof (induction keys arbitrary: st)
  case Nil
  then show ?case by simp
next
  case (Cons key keys)
  from walk_same_listing(1) [OF Cons.prems]
  have w: "walkTree n c key st = walkTree n c' key st" .
  show ?case
  proof (cases "walkTree n c' key st")
    case None
    with w show ?thesis by simp
  next
    case (Some res)
    with w Cons.IH [OF Cons.prems] show ?thesis
      by (cases res) simp
  qed
qed

subsection \<open>Two runs of the fetch\<close>

lemma GetValues_no_error:
  assumes "walkAll fuel c keys \<lparr>branches = {}, calls = []\<rparr> = Some st"
    and "\<forall>p\<in>set (range_order (branches st)). \<forall>e. logical_Read c p \<noteq> Inl e"
  shows "GetValues fuel c marshal range_order keys
          = Some (range_order (branches st),
                  Inr (foldl (contribute c marshal) Map.empty (range_order (branches st))))"
  using assms(1) by (simp add: GetValues_def readLoop_no_error [OF assms(2)])

lemma foldl_contribute_runs:
  assumes "same_store c1 c2" and "set order1 = B" and "set order2 = B"
    and "separate_keys c1 B" and "unambiguous c1 B"
  shows "foldl (contribute c1 m1) Map.empty order1 = foldl (contribute c2 m2) Map.empty order2"
proof
  fix k
  show "foldl (contribute c1 m1) Map.empty order1 k = foldl (contribute c2 m2) Map.empty order2 k"
  proof (cases "\<exists>p\<in>B. k \<in> touched c1 p")
    case True
    then obtain p where p: "p \<in> B" "k \<in> touched c1 p" by auto
    have others: "\<forall>q\<in>B. q \<noteq> p \<longrightarrow> k \<notin> touched c1 q"
      using assms(4) p by (auto simp: separate_keys_def)
    have one: "foldl (contribute c1 m1) Map.empty order1 k = contribute c1 m1 Map.empty p k"
      by (rule foldl_contribute_owner) (use p others assms(2) in auto)
    have two: "foldl (contribute c2 m2) Map.empty order2 k = contribute c2 m2 Map.empty p k"
      by (rule foldl_contribute_owner)
         (use p others assms(3) same_store_touched [OF assms(1)] in auto)
    have "\<forall>data. data_at c1 p = Some data \<longrightarrow> single_valued (set (leaf_entries p (JMap data)))"
      using assms(5) p(1) by (simp add: unambiguous_def)
    from same_store_contribute [OF assms(1) p(2) this] one two
    show ?thesis by simp
  next
    case False
    then have "\<forall>q\<in>set order1. k \<notin> touched c1 q" and "\<forall>q\<in>set order2. k \<notin> touched c2 q"
      using assms(2,3) same_store_touched [OF assms(1)] by auto
    then show ?thesis
      by (simp add: foldl_contribute_untouched)
  qed
qed

text \<open>
  C10, where the keys are kept apart. Let two runs meet the same store, each with its own
  order of the fields of every map and its own order of the discovered paths. Let no read
  of a discovered path fail, let no output key be assigned or deleted by the iterations of
  two distinct discovered paths, and let no data have two string leaves whose names join
  to one key with different strings. Then both runs of \<open>GetValues\<close> return the same mapping.
\<close>

theorem fetch_run_independent:
  assumes "same_store c1 c2"
    and "walkAll fuel c1 keys \<lparr>branches = {}, calls = []\<rparr> = Some st"
    and "set (order1 (branches st)) = branches st"
    and "set (order2 (branches st)) = branches st"
    and "\<forall>p\<in>branches st. \<forall>e. logical_Read c1 p \<noteq> Inl e"
    and "separate_keys c1 (branches st)"
    and "unambiguous c1 (branches st)"
  shows "\<exists>vars. map_option snd (GetValues fuel c1 marshal1 order1 keys) = Some (Inr vars)
              \<and> map_option snd (GetValues fuel c2 marshal2 order2 keys) = Some (Inr vars)"
proof -
  let ?o1 = "order1 (branches st)" and ?o2 = "order2 (branches st)"
  have l: "logical_List c1 = logical_List c2"
    using assms(1) by (simp add: same_store_def)
  have w2: "walkAll fuel c2 keys \<lparr>branches = {}, calls = []\<rparr> = Some st"
    using assms(2) walkAll_same_listing [OF l] by simp
  have e1: "\<forall>p\<in>set ?o1. \<forall>e. logical_Read c1 p \<noteq> Inl e"
    using assms(3,5) by simp
  have e2: "\<forall>p\<in>set ?o2. \<forall>e. logical_Read c2 p \<noteq> Inl e"
    using assms(4,5) same_store_no_error [OF assms(1)] by simp
  have same: "foldl (contribute c1 marshal1) Map.empty ?o1 = foldl (contribute c2 marshal2) Map.empty ?o2"
    by (rule foldl_contribute_runs [OF assms(1,3,4,6,7)])
  have "map_option snd (GetValues fuel c1 marshal1 order1 keys)
          = Some (Inr (foldl (contribute c1 marshal1) Map.empty ?o1))"
    by (simp add: GetValues_no_error [where range_order = order1, OF assms(2) e1])
  moreover have "map_option snd (GetValues fuel c2 marshal2 order2 keys)
          = Some (Inr (foldl (contribute c1 marshal1) Map.empty ?o1))"
    by (simp add: GetValues_no_error [where range_order = order2, OF w2 e2] same)
  ultimately show ?thesis by blast
qed

lemma same_fields_single:
  "same_value v w \<Longrightarrow> same_fields [(name, v)] [(name, w)]"
  using same_field [where xs = "[]" and ys = "[]" and zs = "[]"] same_no_fields by simp

lemma same_fields_swap:
  "same_value v v' \<Longrightarrow> same_value w w' \<Longrightarrow> same_fields [(a, v), (b, w)] [(b, w'), (a, v')]"
  using same_field [where xs = "[(b, w)]" and ys = "[(b, w')]" and zs = "[]"]
    same_fields_single by simp

lemma scalar_client_reordered: "same_store scalar_client reordered_client"
proof -
  have "same_response (logical_Read scalar_client p) (logical_Read reordered_client p)" for p
    by (simp add: scalar_client_def reordered_client_def same_response_def
          same_fields_single same_fields_swap same_JString)
  then show ?thesis
    by (simp add: same_store_def scalar_client_def reordered_client_def)
qed

theorem fetch_run_independent_witness:
  "same_store scalar_client reordered_client
   \<and> separate_keys scalar_client {''p'', ''q''}
   \<and> unambiguous scalar_client {''p'', ''q''}
   \<and> GetValues 1 scalar_client const_marshal (order_of [''p'', ''q'']) [''p'', ''q'']
       = Some ([''p'', ''q''], Inr [''p'' \<mapsto> ''hello'', ''q/value'' \<mapsto> ''hello'', ''q/other'' \<mapsto> ''x''])
   \<and> map_option snd (GetValues 1 reordered_client const_marshal (order_of [''q'', ''p'']) [''p'', ''q''])
       = Some (Inr [''p'' \<mapsto> ''hello'', ''q/value'' \<mapsto> ''hello'', ''q/other'' \<mapsto> ''x''])"
proof -
  let ?st = "\<lparr>branches = {''p'', ''q''}, calls = [(''p'', {''p''}), (''q'', {''p'', ''q''})]\<rparr>"
  have w: "walkAll 1 scalar_client [''p'', ''q''] \<lparr>branches = {}, calls = []\<rparr> = Some ?st"
    by code_simp
  have o1: "set (order_of [''p'', ''q''] (branches ?st)) = branches ?st"
    by (auto simp: order_of_def)
  have o2: "set (order_of [''q'', ''p''] (branches ?st)) = branches ?st"
    by (auto simp: order_of_def)
  have ok: "\<forall>p\<in>branches ?st. \<forall>e. logical_Read scalar_client p \<noteq> Inl e"
    by (simp add: scalar_client_def)
  have sep: "separate_keys scalar_client (branches ?st)"
    unfolding wstate.simps by code_simp
  have j1: "path_Join [''q'', ''/'', ''value''] = ''q/value''"
    by (simp add: path_Join_def path_Clean_def clean_elem_def)
  have j2: "path_Join [''q'', ''/'', ''other''] = ''q/other''"
    by (simp add: path_Join_def path_Clean_def clean_elem_def)
  have dp: "data_at scalar_client ''p'' = Some [(''value'', JString ''hello'')]"
    by (simp add: data_at_def scalar_client_def)
  have dq: "data_at scalar_client ''q'' = Some [(''value'', JString ''hello''), (''other'', JString ''x'')]"
    by (simp add: data_at_def scalar_client_def)
  have jp: "path_Join [''p'', ''/'', ''value''] = ''p/value''"
    by (simp add: path_Join_def path_Clean_def clean_elem_def)
  have una: "unambiguous scalar_client (branches ?st)"
    by (simp add: unambiguous_def dp dq leaf_entries_def join_names_def j1 j2 jp single_valued_def)
  have g: "GetValues 1 scalar_client const_marshal (order_of [''p'', ''q'']) [''p'', ''q'']
       = Some ([''p'', ''q''], Inr [''p'' \<mapsto> ''hello'', ''q/value'' \<mapsto> ''hello'', ''q/other'' \<mapsto> ''x''])"
    using w by (simp add: GetValues_def order_of_def scalar_client_def store_data_def isKV_def
        j1 j2 fun_eq_iff)
  from fetch_run_independent [where ?order1.0 = "order_of [''p'', ''q'']"
      and ?order2.0 = "order_of [''q'', ''p'']" and ?marshal1.0 = const_marshal
      and ?marshal2.0 = const_marshal, OF scalar_client_reordered w o1 o2 ok sep una]
  have "map_option snd (GetValues 1 reordered_client const_marshal (order_of [''q'', ''p'']) [''p'', ''q''])
       = Some (Inr [''p'' \<mapsto> ''hello'', ''q/value'' \<mapsto> ''hello'', ''q/other'' \<mapsto> ''x''])"
    unfolding g by auto
  with scalar_client_reordered sep una g show ?thesis by simp
qed

lemma one_secret_same:
  assumes "same_fields d1 d2"
  shows "same_store (one_secret_client d1) (one_secret_client d2)"
proof -
  have "same_response (logical_Read (one_secret_client d1) p) (logical_Read (one_secret_client d2) p)" for p
    using assms by (simp add: one_secret_client_def same_response_def)
  then show ?thesis
    by (simp add: same_store_def one_secret_client_def)
qed

text \<open>
  The field \<^verbatim>\<open>b\<close> of the secret at \<^verbatim>\<open>a\<close> and the scalar secret at \<^verbatim>\<open>a/b\<close> both assign the
  key \<^verbatim>\<open>a/b\<close>; the two orders of the paths give two mappings. In the secret at \<^verbatim>\<open>p\<close> the
  field \<^verbatim>\<open>x/y\<close> and the field \<^verbatim>\<open>y\<close> inside \<^verbatim>\<open>x\<close> both assign the key \<^verbatim>\<open>p/x/y\<close>; the two
  orders of the fields give two mappings.
\<close>

theorem fetch_depends_on_order:
  "GetValues 2 collide_client const_marshal (order_of [''a'', ''a/b'']) [''a'']
     = Some ([''a'', ''a/b''], Inr [''a/c'' \<mapsto> ''z'', ''a/b'' \<mapsto> ''y''])
   \<and> GetValues 2 collide_client const_marshal (order_of [''a/b'', ''a'']) [''a'']
     = Some ([''a/b'', ''a''], Inr [''a/c'' \<mapsto> ''z'', ''a/b'' \<mapsto> ''x''])
   \<and> [''a/c'' \<mapsto> ''z'', ''a/b'' \<mapsto> ''y''] \<noteq> [''a/c'' \<mapsto> ''z'', ''a/b'' \<mapsto> ''x'']
   \<and> same_store
        (one_secret_client [(''x/y'', JString ''1''), (''x'', JMap [(''y'', JString ''2'')])])
        (one_secret_client [(''x'', JMap [(''y'', JString ''2'')]), (''x/y'', JString ''1'')])
   \<and> GetValues 1 (one_secret_client [(''x/y'', JString ''1''), (''x'', JMap [(''y'', JString ''2'')])])
        const_marshal (order_of [''p'']) [''p'']
     = Some ([''p''], Inr [''p/x/y'' \<mapsto> ''2''])
   \<and> GetValues 1 (one_secret_client [(''x'', JMap [(''y'', JString ''2'')]), (''x/y'', JString ''1'')])
        const_marshal (order_of [''p'']) [''p'']
     = Some ([''p''], Inr [''p/x/y'' \<mapsto> ''1''])
   \<and> [''p/x/y'' \<mapsto> ''2''] \<noteq> [''p/x/y'' \<mapsto> ''1'']"
proof -
  have w: "walkAll 2 collide_client [''a''] \<lparr>branches = {}, calls = []\<rparr>
            = Some \<lparr>branches = {''a'', ''a/b''}, calls = [(''a'', {''a''}), (''a/b'', {''a'', ''a/b''})]\<rparr>"
    by code_simp
  have j1: "path_Join [''a'', ''/'', ''b''] = ''a/b''"
    by (simp add: path_Join_def path_Clean_def clean_elem_def)
  have j2: "path_Join [''a'', ''/'', ''c''] = ''a/c''"
    by (simp add: path_Join_def path_Clean_def clean_elem_def)
  have g1: "GetValues 2 collide_client const_marshal (order_of [''a'', ''a/b'']) [''a'']
     = Some ([''a'', ''a/b''], Inr [''a/c'' \<mapsto> ''z'', ''a/b'' \<mapsto> ''y''])"
    using w by (simp add: GetValues_def order_of_def collide_client_def store_data_def isKV_def
        j1 j2 fun_eq_iff)
  have g2: "GetValues 2 collide_client const_marshal (order_of [''a/b'', ''a'']) [''a'']
     = Some ([''a/b'', ''a''], Inr [''a/c'' \<mapsto> ''z'', ''a/b'' \<mapsto> ''x''])"
    using w by (simp add: GetValues_def order_of_def collide_client_def store_data_def isKV_def
        j1 j2 fun_eq_iff)
  have "[''a/c'' \<mapsto> ''z'', ''a/b'' \<mapsto> ''y''] ''a/b'' \<noteq> [''a/c'' \<mapsto> ''z'', ''a/b'' \<mapsto> ''x''] ''a/b''"
    by simp
  then have n1: "[''a/c'' \<mapsto> ''z'', ''a/b'' \<mapsto> ''y''] \<noteq> [''a/c'' \<mapsto> ''z'', ''a/b'' \<mapsto> (''x''::string)]"
    by metis
  let ?d1 = "[(''x/y'', JString ''1''), (''x'', JMap [(''y'', JString ''2'')])]"
  let ?d2 = "[(''x'', JMap [(''y'', JString ''2'')]), (''x/y'', JString ''1'')]"
  have "same_fields ?d1 ?d2"
    by (intro same_fields_swap same_JString same_JMap same_fields_single)
  then have ss: "same_store (one_secret_client ?d1) (one_secret_client ?d2)"
    by (rule one_secret_same)
  have wp: "walkAll 1 (one_secret_client d) [''p''] \<lparr>branches = {}, calls = []\<rparr>
            = Some \<lparr>branches = {''p''}, calls = [(''p'', {''p''})]\<rparr>" for d
    by (simp add: one_secret_client_def strip_slash_def keyList_of_def Let_def)
  have k1: "path_Join [''p'', ''/'', ''x/y''] = ''p/x/y''"
    by (simp add: path_Join_def path_Clean_def clean_elem_def)
  have k2: "path_Join [''p'', ''/'', ''x''] = ''p/x''"
    by (simp add: path_Join_def path_Clean_def clean_elem_def)
  have k3: "path_Join [''p/x'', ''/'', ''y''] = ''p/x/y''"
    by (simp add: path_Join_def path_Clean_def clean_elem_def)
  have h1: "GetValues 1 (one_secret_client ?d1) const_marshal (order_of [''p'']) [''p'']
     = Some ([''p''], Inr [''p/x/y'' \<mapsto> ''2''])"
    using wp [of ?d1]
    by (simp add: GetValues_def order_of_def one_secret_client_def store_data_def isKV_def
        k1 k2 k3 fun_eq_iff)
  have h2: "GetValues 1 (one_secret_client ?d2) const_marshal (order_of [''p'']) [''p'']
     = Some ([''p''], Inr [''p/x/y'' \<mapsto> ''1''])"
    using wp [of ?d2]
    by (simp add: GetValues_def order_of_def one_secret_client_def store_data_def isKV_def
        k1 k2 k3 fun_eq_iff)
  have "[''p/x/y'' \<mapsto> ''2''] ''p/x/y'' \<noteq> [''p/x/y'' \<mapsto> ''1''] ''p/x/y''"
    by simp
  then have n2: "[''p/x/y'' \<mapsto> ''2''] \<noteq> [''p/x/y'' \<mapsto> (''1''::string)]"
    by metis
  from g1 g2 n1 ss h1 h2 n2 show ?thesis by simp
qed

subsection \<open>What one path gives to the fetch\<close>

lemma foldl_contribute_alone:
  assumes "p \<in> set order" and "\<forall>q\<in>set order. q \<noteq> p \<longrightarrow> k \<notin> touched c q"
  shows "foldl (contribute c marshal) Map.empty order k = contribute c marshal Map.empty p k"
proof (cases "k \<in> touched c p")
  case True
  with assms show ?thesis
    by (simp add: foldl_contribute_owner)
next
  case False
  with assms(2) have "\<forall>q\<in>set order. k \<notin> touched c q" by auto
  then have "foldl (contribute c marshal) Map.empty order k = None"
    by (simp add: foldl_contribute_untouched)
  with False show ?thesis by (simp add: contribute_frame)
qed

lemma fetch_alone:
  assumes "walkAll fuel c keys \<lparr>branches = {}, calls = []\<rparr> = Some st"
    and "set (range_order (branches st)) = branches st"
    and "\<forall>q\<in>branches st. \<forall>e. logical_Read c q \<noteq> Inl e"
    and "p \<in> branches st"
    and "data_at c p = Some data"
  shows "\<exists>vars. map_option snd (GetValues fuel c marshal range_order keys) = Some (Inr vars)
           \<and> (\<forall>k. (\<forall>q\<in>branches st. q \<noteq> p \<longrightarrow> k \<notin> touched c q) \<longrightarrow>
                  vars k = store_data marshal p data Map.empty k)"
proof -
  let ?order = "range_order (branches st)"
  let ?vars = "foldl (contribute c marshal) Map.empty ?order"
  have e: "\<forall>q\<in>set ?order. \<forall>e. logical_Read c q \<noteq> Inl e"
    using assms(2,3) by simp
  have g: "map_option snd (GetValues fuel c marshal range_order keys) = Some (Inr ?vars)"
    by (simp add: GetValues_no_error [where range_order = range_order, OF assms(1) e])
  have "?vars k = store_data marshal p data Map.empty k"
    if "\<forall>q\<in>branches st. q \<noteq> p \<longrightarrow> k \<notin> touched c q" for k
  proof -
    have "?vars k = contribute c marshal Map.empty p k"
      by (rule foldl_contribute_alone) (use assms(2,4) that in auto)
    then show ?thesis using assms(5) by (simp add: contribute_def)
  qed
  with g show ?thesis by blast
qed

text \<open>
  C1, in the fetch. Let no read of a discovered path fail and let the read at the
  discovered path \<open>p\<close> return data. On every key that no other discovered path assigns or
  deletes, the output of \<open>GetValues\<close> is as follows. When the data has exactly one field,
  named \<^verbatim>\<open>value\<close> and holding a string \<open>s\<close>, the key \<open>p\<close> maps to \<open>s\<close> and no other such key
  has an entry. Data of any other shape (another number of fields, a single field with
  another name, or with a content that is not a string) is flattened instead: the output
  is the data flattened onto \<open>p\<close>, without an entry at \<open>p\<close>.
\<close>

theorem fetch_scalar_or_structured:
  assumes "walkAll fuel c keys \<lparr>branches = {}, calls = []\<rparr> = Some st"
    and "set (range_order (branches st)) = branches st"
    and "\<forall>q\<in>branches st. \<forall>e. logical_Read c q \<noteq> Inl e"
    and "p \<in> branches st"
    and "logical_Read c p = Inr (Some r)" and "Data r = Some data"
  shows "\<exists>vars. map_option snd (GetValues fuel c marshal range_order keys) = Some (Inr vars)
           \<and> (\<forall>k. (\<forall>q\<in>branches st. q \<noteq> p \<longrightarrow> k \<notin> touched c q) \<longrightarrow>
                 (data = [(''value'', JString s)] \<longrightarrow> vars k = (if k = p then Some s else None))
               \<and> ((\<forall>t. data \<noteq> [(''value'', JString t)]) \<longrightarrow>
                    vars k = ((flatten p (JMap data) [p \<mapsto> marshal data])(p := None)) k))"
proof -
  have d: "data_at c p = Some data"
    using assms(5,6) by (simp add: data_at_def)
  from fetch_alone [where range_order = range_order and marshal = marshal, OF assms(1-4) d]
  obtain vars where g: "map_option snd (GetValues fuel c marshal range_order keys) = Some (Inr vars)"
    and v: "\<forall>k. (\<forall>q\<in>branches st. q \<noteq> p \<longrightarrow> k \<notin> touched c q) \<longrightarrow>
                  vars k = store_data marshal p data Map.empty k"
    by blast
  have scalar: "store_data marshal p data Map.empty k = (if k = p then Some s else None)"
    if "data = [(''value'', JString s)]" for k
  proof -
    from that have "isKV data = Some s" by (simp add: isKV_Some_iff)
    then show ?thesis by (simp add: store_data_def)
  qed
  have structured: "store_data marshal p data Map.empty
                      = (flatten p (JMap data) [p \<mapsto> marshal data])(p := None)"
    if "\<forall>t. data \<noteq> [(''value'', JString t)]"
  proof -
    from that have "isKV data = None" by (simp add: isKV_None_iff)
    then show ?thesis by (simp add: store_data_def)
  qed
  from g v scalar structured show ?thesis by metis
qed

theorem fetch_scalar_or_structured_witness:
  "GetValues 1 scalar_client const_marshal (order_of [''q'', ''p'']) [''p'', ''q'']
     = Some ([''q'', ''p''], Inr [''p'' \<mapsto> ''hello'', ''q/value'' \<mapsto> ''hello'', ''q/other'' \<mapsto> ''x''])
   \<and> (\<exists>vars. map_option snd (GetValues 1 scalar_client const_marshal (order_of [''q'', ''p'']) [''p'', ''q''])
                 = Some (Inr vars)
          \<and> vars ''p'' = Some ''hello'' \<and> vars ''p/value'' = None
          \<and> vars ''q'' = None \<and> vars ''q/value'' = Some ''hello'' \<and> vars ''q/other'' = Some ''x'')"
proof -
  let ?st = "\<lparr>branches = {''p'', ''q''}, calls = [(''p'', {''p''}), (''q'', {''p'', ''q''})]\<rparr>"
  let ?dp = "[(''value'', JString ''hello'')]"
  let ?dq = "[(''value'', JString ''hello''), (''other'', JString ''x'')]"
  have w: "walkAll 1 scalar_client [''p'', ''q''] \<lparr>branches = {}, calls = []\<rparr> = Some ?st"
    by code_simp
  have o: "set (order_of [''q'', ''p''] (branches ?st)) = branches ?st"
    by (auto simp: order_of_def)
  have ok: "\<forall>q\<in>branches ?st. \<forall>e. logical_Read scalar_client q \<noteq> Inl e"
    by (simp add: scalar_client_def)
  have rp: "logical_Read scalar_client ''p'' = Inr (Some \<lparr>Data = Some ?dp\<rparr>)"
    by (simp add: scalar_client_def)
  have rq: "logical_Read scalar_client ''q'' = Inr (Some \<lparr>Data = Some ?dq\<rparr>)"
    by (simp add: scalar_client_def)
  have dp: "Data \<lparr>Data = Some ?dp\<rparr> = Some ?dp" by simp
  have dq: "Data \<lparr>Data = Some ?dq\<rparr> = Some ?dq" by simp
  have j1: "path_Join [''q'', ''/'', ''value''] = ''q/value''"
    by (simp add: path_Join_def path_Clean_def clean_elem_def)
  have j2: "path_Join [''q'', ''/'', ''other''] = ''q/other''"
    by (simp add: path_Join_def path_Clean_def clean_elem_def)
  have tp: "touched scalar_client ''p'' = {''p''}"
    by (simp add: touched_def data_at_def scalar_client_def isKV_def)
  have tq: "touched scalar_client ''q'' = {''q'', ''q/value'', ''q/other''}"
    by (simp add: touched_def data_at_def scalar_client_def isKV_def leaf_entries_def
          join_names_def j1 j2)
  have g: "GetValues 1 scalar_client const_marshal (order_of [''q'', ''p'']) [''p'', ''q'']
     = Some ([''q'', ''p''], Inr [''p'' \<mapsto> ''hello'', ''q/value'' \<mapsto> ''hello'', ''q/other'' \<mapsto> ''x''])"
    using w by (simp add: GetValues_def order_of_def scalar_client_def store_data_def isKV_def
        j1 j2 fun_eq_iff)
  from fetch_scalar_or_structured [where range_order = "order_of [''q'', ''p'']"
      and marshal = const_marshal and s = "''hello''", OF w o ok _ rp dp]
  obtain vars where v: "map_option snd (GetValues 1 scalar_client const_marshal (order_of [''q'', ''p'']) [''p'', ''q''])
                 = Some (Inr vars)"
    and vp: "\<forall>k. (\<forall>q\<in>branches ?st. q \<noteq> ''p'' \<longrightarrow> k \<notin> touched scalar_client q) \<longrightarrow>
               vars k = (if k = ''p'' then Some ''hello'' else None)"
    by auto
  from fetch_scalar_or_structured [where range_order = "order_of [''q'', ''p'']"
      and marshal = const_marshal and s = "''hello''", OF w o ok _ rq dq]
  obtain vars' where v': "map_option snd (GetValues 1 scalar_client const_marshal (order_of [''q'', ''p'']) [''p'', ''q''])
                 = Some (Inr vars')"
    and vq: "\<forall>k. (\<forall>q\<in>branches ?st. q \<noteq> ''q'' \<longrightarrow> k \<notin> touched scalar_client q) \<longrightarrow>
               vars' k = ((flatten ''q'' (JMap ?dq) [''q'' \<mapsto> const_marshal ?dq])(''q'' := None)) k"
    by auto
  from v' [unfolded v] have same: "vars' = vars" by simp
  from vp have "vars ''p'' = Some ''hello''" and "vars ''p/value'' = None"
    by (simp_all add: tq)
  moreover from vq same have "vars ''q'' = None" and "vars ''q/value'' = Some ''hello''"
    and "vars ''q/other'' = Some ''x''"
    by (simp_all add: tp j1 j2)
  ultimately show ?thesis using g v by blast
qed

text \<open>
  The read at \<^verbatim>\<open>a/b\<close> returns the scalar \<^verbatim>\<open>y\<close>, and the output maps \<^verbatim>\<open>a/b\<close> to \<^verbatim>\<open>x\<close>, the
  field \<^verbatim>\<open>b\<close> of the secret at \<^verbatim>\<open>a\<close>, which was flattened later. In the store of five
  leaves the read at \<^verbatim>\<open>a\<close> returns a scalar, and the fetch returns the error of the read at
  \<^verbatim>\<open>c\<close> and no mapping.
\<close>

theorem scalar_entry_overwritten:
  "logical_Read collide_client ''a/b'' = Inr (Some \<lparr>Data = Some [(''value'', JString ''y'')]\<rparr>)
   \<and> GetValues 2 collide_client const_marshal (order_of [''a/b'', ''a'']) [''a'']
       = Some ([''a/b'', ''a''], Inr [''a/c'' \<mapsto> ''z'', ''a/b'' \<mapsto> ''x''])
   \<and> [''a/c'' \<mapsto> ''z'', ''a/b'' \<mapsto> ''x''] ''a/b'' \<noteq> Some ''y''
   \<and> logical_Read five_client ''a'' = Inr (Some \<lparr>Data = Some [(''value'', JString ''a'')]\<rparr>)
   \<and> GetValues 1 five_client const_marshal (order_of [''a'', ''b'', ''c'', ''d'', ''e''])
         [''a'', ''b'', ''c'', ''d'', ''e'']
       = Some ([''a'', ''b'', ''c''], Inl (RemoteError ''permission denied''))"
proof -
  have r5: "logical_Read five_client ''a'' = Inr (Some \<lparr>Data = Some [(''value'', JString ''a'')]\<rparr>)"
    by (simp add: five_client_def)
  have w5: "walkAll 1 five_client [''a'', ''b'', ''c'', ''d'', ''e''] \<lparr>branches = {}, calls = []\<rparr>
     = Some \<lparr>branches = {''a'', ''b'', ''c'', ''d'', ''e''},
              calls = [(''a'', {''a''}), (''b'', {''a'', ''b''}), (''c'', {''a'', ''b'', ''c''}),
                       (''d'', {''a'', ''b'', ''c'', ''d''}), (''e'', {''a'', ''b'', ''c'', ''d'', ''e''})]\<rparr>"
    by code_simp
  have g5: "GetValues 1 five_client const_marshal (order_of [''a'', ''b'', ''c'', ''d'', ''e''])
         [''a'', ''b'', ''c'', ''d'', ''e'']
       = Some ([''a'', ''b'', ''c''], Inl (RemoteError ''permission denied''))"
    using w5 by (simp add: GetValues_def order_of_def five_client_def store_data_def isKV_def)
  have r: "logical_Read collide_client ''a/b'' = Inr (Some \<lparr>Data = Some [(''value'', JString ''y'')]\<rparr>)"
    by (simp add: collide_client_def)
  have w: "walkAll 2 collide_client [''a''] \<lparr>branches = {}, calls = []\<rparr>
            = Some \<lparr>branches = {''a'', ''a/b''}, calls = [(''a'', {''a''}), (''a/b'', {''a'', ''a/b''})]\<rparr>"
    by code_simp
  have j1: "path_Join [''a'', ''/'', ''b''] = ''a/b''"
    by (simp add: path_Join_def path_Clean_def clean_elem_def)
  have j2: "path_Join [''a'', ''/'', ''c''] = ''a/c''"
    by (simp add: path_Join_def path_Clean_def clean_elem_def)
  have g: "GetValues 2 collide_client const_marshal (order_of [''a/b'', ''a'']) [''a'']
     = Some ([''a/b'', ''a''], Inr [''a/c'' \<mapsto> ''z'', ''a/b'' \<mapsto> ''x''])"
    using w by (simp add: GetValues_def order_of_def collide_client_def store_data_def isKV_def
        j1 j2 fun_eq_iff)
  from r g r5 g5 show ?thesis by simp
qed

text \<open>
  C2, with the keys that coincide. For a path \<open>p\<close> whose data does not match the scalar
  heuristic, \<open>flatten\<close> makes one assignment per string leaf of the data, in the order of
  enumeration, each keyed by the nested field names joined onto \<open>p\<close>, and the entry at \<open>p\<close>
  is deleted afterwards: the mapping after the iteration is the mapping before it
  overridden by these entries, without an entry at \<open>p\<close>. When the joined keys are pairwise
  distinct and none of them is \<open>p\<close>, every string leaf has its own entry. In the output of
  \<open>GetValues\<close>, when no read fails, the same holds on every key that no other discovered
  path assigns or deletes.
\<close>

theorem structured_flattening:
  assumes "isKV data = None"
  shows "store_data marshal p data vars
           = (vars ++ map_of (rev (leaf_entries p (JMap data))))(p := None)
       \<and> store_data marshal p data vars p = None
       \<and> (distinct (map fst (leaf_entries p (JMap data)))
            \<and> p \<notin> fst ` set (leaf_entries p (JMap data)) \<longrightarrow>
              (\<forall>(k, s) \<in> set (leaf_entries p (JMap data)). store_data marshal p data vars k = Some s)
            \<and> card (dom (store_data marshal p data Map.empty)) = length (string_leaves (JMap data)))
       \<and> (walkAll fuel c keys \<lparr>branches = {}, calls = []\<rparr> = Some st
            \<and> set (range_order (branches st)) = branches st
            \<and> (\<forall>q\<in>branches st. \<forall>e. logical_Read c q \<noteq> Inl e)
            \<and> p \<in> branches st \<and> data_at c p = Some data \<longrightarrow>
              (\<exists>out. map_option snd (GetValues fuel c marshal range_order keys) = Some (Inr out)
                 \<and> (\<forall>k. (\<forall>q\<in>branches st. q \<noteq> p \<longrightarrow> k \<notin> touched c q) \<longrightarrow>
                        out k = (if k = p then None
                                 else map_of (rev (leaf_entries p (JMap data))) k))))"
proof -
  let ?E = "leaf_entries p (JMap data)"
  have blob: "(v(p \<mapsto> marshal data) ++ map_of (rev ?E))(p := None) = (v ++ map_of (rev ?E))(p := None)"
    for v :: vars
    by (auto simp: fun_eq_iff map_add_def split: option.splits)
  have eq: "store_data marshal p data v = (v ++ map_of (rev ?E))(p := None)" for v
    using assms by (simp add: store_data_def flatten_leaf_entries blob)
  have own: "(\<forall>(k, s) \<in> set ?E. store_data marshal p data vars k = Some s)
             \<and> card (dom (store_data marshal p data Map.empty)) = length (string_leaves (JMap data))"
    if d: "distinct (map fst ?E)" and np: "p \<notin> fst ` set ?E"
  proof
    have dr: "distinct (map fst (rev ?E))" using d by (simp add: rev_map [symmetric])
    show "\<forall>(k, s) \<in> set ?E. store_data marshal p data vars k = Some s"
    proof (clarify)
      fix k s assume ks: "(k, s) \<in> set ?E"
      then have "map_of (rev ?E) k = Some s"
        using map_of_is_SomeI [OF dr, of k s] by simp
      moreover from ks np have "k \<noteq> p" by force
      ultimately show "store_data marshal p data vars k = Some s"
        by (simp add: eq map_add_def)
    qed
    have "dom (store_data marshal p data Map.empty) = fst ` set ?E"
      using np by (auto simp: eq dom_map_of_conv_image_fst)
    then have "card (dom (store_data marshal p data Map.empty)) = card (set (map fst ?E))"
      by simp
    also have "\<dots> = length (map fst ?E)" using d by (rule distinct_card)
    also have "\<dots> = length (string_leaves (JMap data))" by (simp add: leaf_entries_def)
    finally show "card (dom (store_data marshal p data Map.empty)) = length (string_leaves (JMap data))" .
  qed
  have fetch: "\<exists>out. map_option snd (GetValues fuel c marshal range_order keys) = Some (Inr out)
                 \<and> (\<forall>k. (\<forall>q\<in>branches st. q \<noteq> p \<longrightarrow> k \<notin> touched c q) \<longrightarrow>
                        out k = (if k = p then None else map_of (rev ?E) k))"
    if h: "walkAll fuel c keys \<lparr>branches = {}, calls = []\<rparr> = Some st
            \<and> set (range_order (branches st)) = branches st
            \<and> (\<forall>q\<in>branches st. \<forall>e. logical_Read c q \<noteq> Inl e)
            \<and> p \<in> branches st \<and> data_at c p = Some data"
  proof -
    from h have w: "walkAll fuel c keys \<lparr>branches = {}, calls = []\<rparr> = Some st"
      and o: "set (range_order (branches st)) = branches st"
      and ok: "\<forall>q\<in>branches st. \<forall>e. logical_Read c q \<noteq> Inl e"
      and p: "p \<in> branches st" and dat: "data_at c p = Some data"
      by simp_all
    from fetch_alone [where range_order = range_order and marshal = marshal, OF w o ok p dat]
    obtain out where g: "map_option snd (GetValues fuel c marshal range_order keys) = Some (Inr out)"
      and v: "\<forall>k. (\<forall>q\<in>branches st. q \<noteq> p \<longrightarrow> k \<notin> touched c q) \<longrightarrow>
                  out k = store_data marshal p data Map.empty k"
      by blast
    have "store_data marshal p data Map.empty k = (if k = p then None else map_of (rev ?E) k)" for k
      by (simp add: eq)
    with g v show ?thesis by auto
  qed
  from eq own fetch show ?thesis by (simp add: eq)
qed

lemma strip_slash_app: "strip_slash ''secret/app'' = ''secret/app''"
  by (simp add: strip_slash_def)

theorem structured_flattening_witness:
  "isKV app_data = None
   \<and> store_data const_marshal ''secret/app'' app_data Map.empty =
       [''secret/app/db/user'' \<mapsto> ''a'', ''secret/app/db/pass'' \<mapsto> ''b'']
   \<and> card (dom (store_data const_marshal ''secret/app'' app_data Map.empty)) = 2
   \<and> (\<exists>out. map_option snd (GetValues 1 app_client const_marshal (order_of [''secret/app'']) [''secret/app''])
               = Some (Inr out)
         \<and> out ''secret/app'' = None
         \<and> out ''secret/app/db/user'' = Some ''a'' \<and> out ''secret/app/db/pass'' = Some ''b'')"
proof -
  let ?st = "\<lparr>branches = {''secret/app''}, calls = [(''secret/app'', {''secret/app''})]\<rparr>"
  have k: "isKV app_data = None" by (simp add: isKV_def app_data_def)
  have j1: "path_Join [''secret/app'', ''/'', ''db''] = ''secret/app/db''"
    by (simp add: path_Join_def path_Clean_def clean_elem_def)
  have j2: "path_Join [''secret/app/db'', ''/'', ''user''] = ''secret/app/db/user''"
    by (simp add: path_Join_def path_Clean_def clean_elem_def)
  have j3: "path_Join [''secret/app/db'', ''/'', ''pass''] = ''secret/app/db/pass''"
    by (simp add: path_Join_def path_Clean_def clean_elem_def)
  have e: "leaf_entries ''secret/app'' (JMap app_data) =
            [(''secret/app/db/user'', ''a''), (''secret/app/db/pass'', ''b'')]"
    by (simp add: leaf_entries_def app_data_def join_names_def j1 j2 j3)
  have l: "length (string_leaves (JMap app_data)) = 2"
    by (simp add: app_data_def)
  have w: "walkAll 1 app_client [''secret/app''] \<lparr>branches = {}, calls = []\<rparr> = Some ?st"
    by (simp add: app_client_def strip_slash_app keyList_of_def Let_def)
  have o: "set (order_of [''secret/app''] (branches ?st)) = branches ?st"
    by (simp add: order_of_def)
  have ok: "\<forall>q\<in>branches ?st. \<forall>e. logical_Read app_client q \<noteq> Inl e"
    by (simp add: app_client_def)
  have d: "data_at app_client ''secret/app'' = Some app_data"
    by (simp add: data_at_def app_client_def)
  note t = structured_flattening [OF k, where marshal = const_marshal and p = "''secret/app''"
      and vars = Map.empty and fuel = 1 and c = app_client and keys = "[''secret/app'']"
      and st = ?st and range_order = "order_of [''secret/app'']"]
  from t have s: "store_data const_marshal ''secret/app'' app_data Map.empty =
       [''secret/app/db/user'' \<mapsto> ''a'', ''secret/app/db/pass'' \<mapsto> ''b'']"
    by (simp add: e fun_eq_iff map_add_def)
  from t have c: "card (dom (store_data const_marshal ''secret/app'' app_data Map.empty)) = 2"
    by (simp add: e l)
  from t w o ok d
  obtain out where g: "map_option snd (GetValues 1 app_client const_marshal (order_of [''secret/app'']) [''secret/app''])
               = Some (Inr out)"
    and v: "\<forall>k. out k = (if k = ''secret/app'' then None
                          else map_of (rev (leaf_entries ''secret/app'' (JMap app_data))) k)"
    by auto
  from v have "out ''secret/app'' = None" and "out ''secret/app/db/user'' = Some ''a''"
    and "out ''secret/app/db/pass'' = Some ''b''"
    by (simp_all add: e)
  with k s c g show ?thesis by blast
qed

text \<open>
  The secret with the one field \<^verbatim>\<open>.\<close> has a string leaf, and the fetch gives no entry: the
  field name joins to \<^verbatim>\<open>p\<close>, where the entry is deleted. The secret with the fields
  \<^verbatim>\<open>x/y\<close> and \<^verbatim>\<open>x\<close> has two string leaves, and the fetch gives one entry.
\<close>

theorem leaves_without_entries:
  "isKV [(''.'', JString ''s'')] = None
   \<and> length (string_leaves (JMap [(''.'', JString ''s'')])) = 1
   \<and> GetValues 1 (one_secret_client [(''.'', JString ''s'')]) const_marshal (order_of [''p'']) [''p'']
       = Some ([''p''], Inr Map.empty)
   \<and> isKV [(''x/y'', JString ''1''), (''x'', JMap [(''y'', JString ''2'')])] = None
   \<and> length (string_leaves (JMap [(''x/y'', JString ''1''), (''x'', JMap [(''y'', JString ''2'')])])) = 2
   \<and> GetValues 1 (one_secret_client [(''x/y'', JString ''1''), (''x'', JMap [(''y'', JString ''2'')])])
        const_marshal (order_of [''p'']) [''p'']
       = Some ([''p''], Inr [''p/x/y'' \<mapsto> ''2''])"
proof -
  have wp: "walkAll 1 (one_secret_client d) [''p''] \<lparr>branches = {}, calls = []\<rparr>
            = Some \<lparr>branches = {''p''}, calls = [(''p'', {''p''})]\<rparr>" for d
    by (simp add: one_secret_client_def strip_slash_def keyList_of_def Let_def)
  have k0: "path_Join [''p'', ''/'', ''.''] = ''p''"
    by (simp add: path_Join_def path_Clean_def clean_elem_def)
  have k1: "path_Join [''p'', ''/'', ''x/y''] = ''p/x/y''"
    by (simp add: path_Join_def path_Clean_def clean_elem_def)
  have k2: "path_Join [''p'', ''/'', ''x''] = ''p/x''"
    by (simp add: path_Join_def path_Clean_def clean_elem_def)
  have k3: "path_Join [''p/x'', ''/'', ''y''] = ''p/x/y''"
    by (simp add: path_Join_def path_Clean_def clean_elem_def)
  have a: "isKV [(''.'', JString ''s'')] = None" by (simp add: isKV_def)
  have b: "isKV [(''x/y'', JString ''1''), (''x'', JMap [(''y'', JString ''2'')])] = None"
    by (simp add: isKV_def)
  have g1: "GetValues 1 (one_secret_client [(''.'', JString ''s'')]) const_marshal (order_of [''p'']) [''p'']
       = Some ([''p''], Inr Map.empty)"
    using wp [of "[(''.'', JString ''s'')]"]
    by (simp add: GetValues_def order_of_def one_secret_client_def store_data_def a k0 fun_eq_iff)
  have g2: "GetValues 1 (one_secret_client [(''x/y'', JString ''1''), (''x'', JMap [(''y'', JString ''2'')])])
        const_marshal (order_of [''p'']) [''p'']
       = Some ([''p''], Inr [''p/x/y'' \<mapsto> ''2''])"
    using wp [of "[(''x/y'', JString ''1''), (''x'', JMap [(''y'', JString ''2'')])]"]
    by (simp add: GetValues_def order_of_def one_secret_client_def store_data_def b k1 k2 k3 fun_eq_iff)
  from a b g1 g2 show ?thesis by simp
qed

end
